theory Spec2Isabelle
  imports Main "HOL-Library.Word"
begin

unbundle bit_operations_syntax

section \<open>Data model of the resolve-lock test case\<close>

text \<open>
  The embedding follows \<^verbatim>\<open>testcase/resolve-lock/resolve_lock.go\<close>. Byte slices are lists
  of 8-bit words, timestamps are 64-bit words (\<^verbatim>\<open>uint64\<close>), table and handle ids are 64-bit
  words read as signed (\<^verbatim>\<open>int64\<close>), Go \<^verbatim>\<open>int\<close> counters are integers.

  Every call into a collaborator (the PD client, the region cache, the request sender, the
  lock resolver, the backoffer, the HTTP client, the Go scheduler's choice in a
  \<^verbatim>\<open>select\<close>) is answered from a script: a list holding one answer per loop iteration.
  A function returns \<open>None\<close> when its script is used up before the code has returned, so a
  result \<open>Some r\<close> always is a return of the code.
\<close>

type_synonym key = "8 word list"
type_synonym ts = "64 word"

text \<open>
  Errors. \<^verbatim>\<open>io.EOF\<close> and \<^verbatim>\<open>context.Canceled\<close> are told apart by \<^verbatim>\<open>getTs\<close>; every other error
  is known by its message. \<^verbatim>\<open>errors.Trace\<close> keeps cause and message and is the identity here;
  \<^verbatim>\<open>errors.Annotatef\<close> wraps an error under a new message.
\<close>

datatype error = IoEOF | ContextCanceled | ErrMsg string | Annotated string error

fun Cause :: "error \<Rightarrow> error" where
  "Cause (Annotated m e) = Cause e"
| "Cause e = e"

fun error_msg :: "error \<Rightarrow> string" where
  "error_msg IoEOF = ''EOF''"
| "error_msg ContextCanceled = ''context canceled''"
| "error_msg (ErrMsg m) = m"
| "error_msg (Annotated m e) = m @ '': '' @ error_msg e"

text \<open>The fields of \<^verbatim>\<open>Config\<close> and \<^verbatim>\<open>resolveLockClient\<close> that the test logic reads or writes
  (the database handles and addresses are left to the scripts).\<close>

record Config =
  EnableGreenGC :: bool
  RegionCount :: int
  LockPerRegion :: int
  Worker :: int
  LocalMode :: bool

definition Normalize :: "Config \<Rightarrow> Config" where
  "Normalize c =
     (let c1 = (if RegionCount c = 0 then c\<lparr>RegionCount := 200\<rparr> else c);
          c2 = (if LockPerRegion c1 = 0 then c1\<lparr>LockPerRegion := 10\<rparr> else c1)
      in if Worker c2 = 0 then c2\<lparr>Worker := 10\<rparr> else c2)"

record resolveLockClient =
  config :: Config
  tableIDs :: "64 word list"
  handleID :: "64 word"
  safePoint :: ts
  safeLockTs :: ts
  mockLockTs :: ts

definition reset :: "resolveLockClient \<Rightarrow> resolveLockClient" where
  "reset c = c\<lparr>handleID := 0, safePoint := 0, safeLockTs := 0, mockLockTs := 0\<rparr>"

section \<open>Timestamp source\<close>

text \<open>\<^verbatim>\<open>oracle.ComposeTS\<close> of the storage client library: the physical part shifted left by
  18 bits plus the logical part, converted to \<^verbatim>\<open>uint64\<close>.\<close>

definition ComposeTS :: "64 word \<Rightarrow> 64 word \<Rightarrow> ts" where
  "ComposeTS physical logical = push_bit 18 physical + logical"

text \<open>One iteration of the loop of \<^verbatim>\<open>getTs\<close> consults the PD client and, on \<^verbatim>\<open>io.EOF\<close> or
  \<^verbatim>\<open>context.Canceled\<close>, the context and the backoffer.\<close>

record pd_attempt =
  pd_physical :: "64 word"
  pd_logical :: "64 word"
  pd_err :: "error option"
  ctx_err :: bool
  pd_backoff :: "error option"

fun getTs :: "pd_attempt list \<Rightarrow> (ts \<times> error option) option" where
  "getTs [] = None"
| "getTs (a # as) =
     (case map_option Cause (pd_err a) of
        None \<Rightarrow> Some (ComposeTS (pd_physical a) (pd_logical a), None)
      | Some IoEOF \<Rightarrow>
          (if ctx_err a then Some (0, None)
           else if pd_backoff a \<noteq> None then Some (0, None)
           else getTs as)
      | Some ContextCanceled \<Rightarrow>
          (if ctx_err a then Some (0, None)
           else if pd_backoff a \<noteq> None then Some (0, None)
           else getTs as)
      | Some _ \<Rightarrow> Some (0, pd_err a))"

text \<open>\<^verbatim>\<open>getLockTs\<close>: the real timestamp while \<^verbatim>\<open>mockLockTs\<close> is zero, else
  \<^verbatim>\<open>atomic.AddUint64(&c.mockLockTs, ^uint64(0))\<close>, which stores and returns the sum.\<close>

definition getLockTs ::
  "resolveLockClient \<Rightarrow> pd_attempt list \<Rightarrow> ((ts \<times> error option) \<times> resolveLockClient) option" where
  "getLockTs c pds =
     (if mockLockTs c = 0 then map_option (\<lambda>r. (r, c)) (getTs pds)
      else (let v = mockLockTs c + NOT 0 in Some ((v, None), c\<lparr>mockLockTs := v\<rparr>)))"

text \<open>\<^verbatim>\<open>asyncGenerateLocksDuringGC\<close>: the assignments that open the race window. The
  goroutine that it starts is run by \<open>round_check\<close> below, where \<^verbatim>\<open>Start\<close> joins it.\<close>

definition asyncGenerateLocksDuringGC :: "resolveLockClient \<Rightarrow> ts \<Rightarrow> resolveLockClient" where
  "asyncGenerateLocksDuringGC c ts =
     c\<lparr>handleID := word_of_int (LockPerRegion (config c)), safeLockTs := ts, mockLockTs := ts\<rparr>"

text \<open>The timestamps of up to \<open>n\<close> successive calls of \<^verbatim>\<open>getLockTs\<close> made while the mock
  counter is not zero (the race window).\<close>

fun raceWindowTs :: "nat \<Rightarrow> resolveLockClient \<Rightarrow> ts list" where
  "raceWindowTs 0 c = []"
| "raceWindowTs (Suc n) c =
     (if mockLockTs c = 0 then []
      else (case getLockTs c [] of
              None \<Rightarrow> []
            | Some ((t, e), c') \<Rightarrow> t # raceWindowTs n c'))"

section \<open>Lock writer\<close>

text \<open>\<^verbatim>\<open>bytes.Compare\<close> and the region cache's \<^verbatim>\<open>KeyLocation.Contains\<close>: the start key is at
  most the key, and the key is below the end key or the end key is empty.\<close>

fun bytes_Compare :: "key \<Rightarrow> key \<Rightarrow> int" where
  "bytes_Compare [] [] = 0"
| "bytes_Compare [] (y # ys) = - 1"
| "bytes_Compare (x # xs) [] = 1"
| "bytes_Compare (x # xs) (y # ys) =
     (if x < y then - 1 else if y < x then 1 else bytes_Compare xs ys)"

record KeyLocation =
  loc_Region :: nat
  loc_StartKey :: key
  loc_EndKey :: key

definition Contains :: "KeyLocation \<Rightarrow> key \<Rightarrow> bool" where
  "Contains l k \<longleftrightarrow>
     bytes_Compare (loc_StartKey l) k \<le> 0
     \<and> (bytes_Compare k (loc_EndKey l) < 0 \<or> length (loc_EndKey l) = 0)"

text \<open>\<^verbatim>\<open>tablecodec.EncodeRowKeyWithHandle\<close> of the database library: the byte \<^verbatim>\<open>t\<close>, the table
  id, the bytes \<^verbatim>\<open>_r\<close> and the handle, each id as eight big-endian bytes with the sign bit
  flipped.\<close>

definition EncodeInt :: "64 word \<Rightarrow> 8 word list" where
  "EncodeInt v =
     (let u = v XOR 0x8000000000000000
      in map (\<lambda>i. ucast (drop_bit (8 * (7 - i)) u)) [0..<8])"

definition EncodeRowKeyWithHandle :: "64 word \<Rightarrow> 64 word \<Rightarrow> key" where
  "EncodeRowKeyWithHandle tableID handle =
     [0x74] @ EncodeInt tableID @ [0x5F, 0x72] @ EncodeInt handle"

datatype Op = Op_Put | Op_Del | Op_Lock | Op_Rollback

record Mutation =
  mut_Op :: Op
  mut_Key :: key
  mut_Value :: "8 word list"

record PrewriteRequest =
  Mutations :: "Mutation list"
  PrimaryLock :: key
  StartVersion :: ts
  LockTtl :: nat

text \<open>A response of \<^verbatim>\<open>SendReq\<close>: what \<^verbatim>\<open>GetRegionError\<close> returns (an error, or the region error
  if there is one) and the body, which may be missing.\<close>

record 'b Response =
  RegionError :: "error + string option"
  Resp :: "'b option"

datatype PrewriteResponse = PrewriteResponse (GetErrors: "string list")

text \<open>What one iteration of the loop of \<^verbatim>\<open>lockBatch\<close> gets from its collaborators:
  \<^verbatim>\<open>LocateKey\<close>, the PD replies for \<^verbatim>\<open>getLockTs\<close>, \<^verbatim>\<open>SendReq\<close> and \<^verbatim>\<open>bo.Backoff\<close>.\<close>

record lb_attempt =
  lb_locate :: "error + KeyLocation"
  lb_pd :: "pd_attempt list"
  lb_send :: "error + PrewriteResponse Response"
  lb_backoff :: "error option"

definition maxBatchSize :: nat where
  "maxBatchSize = 1024 * 1024"

text \<open>The inner loop of \<^verbatim>\<open>lockBatch\<close> that collects the mutations; \<open>batchSize\<close> is the size
  before the key at hand.\<close>

fun collect_mutations :: "KeyLocation \<Rightarrow> nat \<Rightarrow> key list \<Rightarrow> Mutation list" where
  "collect_mutations loc batchSize [] = []"
| "collect_mutations loc batchSize (k # ks) =
     (if \<not> Contains loc k then []
      else (let v = [0x76];
                m = \<lparr>mut_Op = Op_Put, mut_Key = k, mut_Value = v\<rparr>;
                batchSize' = batchSize + length k + length v
            in if batchSize' \<ge> maxBatchSize then [m]
               else m # collect_mutations loc batchSize' ks))"

datatype lockBatch_step = Return "nat \<times> error option" | Continue

type_synonym sent_prewrite =
  "KeyLocation \<times> PrewriteRequest \<times> (error + PrewriteResponse Response)"

text \<open>One iteration of the loop of \<^verbatim>\<open>lockBatch\<close> (\<open>keys\<close> is not empty): the step taken, the
  client, and the exchange with the store, if any: the region, the prewrite request handed to
  \<^verbatim>\<open>SendReq\<close> and what \<^verbatim>\<open>SendReq\<close> returned.\<close>

definition lockBatch_attempt ::
  "resolveLockClient \<Rightarrow> key list \<Rightarrow> lb_attempt
   \<Rightarrow> (lockBatch_step \<times> resolveLockClient \<times> sent_prewrite list) option" where
  "lockBatch_attempt c keys a =
     (let primary = hd keys in
      case lb_locate a of
        Inl e \<Rightarrow> Some (Return (0, Some e), c, [])
      | Inr loc \<Rightarrow>
         (case getLockTs c (lb_pd a) of
            None \<Rightarrow> None
          | Some ((startTs, Some e), c1) \<Rightarrow> Some (Return (0, Some e), c1, [])
          | Some ((startTs, None), c1) \<Rightarrow>
             if startTs = 0 then Some (Return (0, None), c1, [])
             else
              (let mutations = collect_mutations loc 0 keys;
                   lockedKeys = length mutations
               in if lockedKeys = 0 then Some (Return (0, None), c1, [])
                  else
                   (let req = \<lparr>Mutations = mutations, PrimaryLock = primary,
                                StartVersion = startTs, LockTtl = 30000\<rparr>;
                        sent = [(loc, req, lb_send a)]
                    in case lb_send a of
                         Inl e \<Rightarrow>
                           Some (Return (0, Some (Annotated ''send request failed'' e)), c1, sent)
                       | Inr resp \<Rightarrow>
                          (case RegionError resp of
                             Inl e \<Rightarrow> Some (Return (0, Some e), c1, sent)
                           | Inr (Some regionErr) \<Rightarrow>
                              (case lb_backoff a of
                                 Some e \<Rightarrow> Some (Return (0, Some e), c1, sent)
                               | None \<Rightarrow> Some (Continue, c1, sent))
                           | Inr None \<Rightarrow>
                              (case Resp resp of
                                 None \<Rightarrow>
                                   Some (Return (0, Some (ErrMsg ''response body missing'')),
                                         c1, sent)
                               | Some prewriteResp \<Rightarrow>
                                   Some (Return (if length (GetErrors prewriteResp) \<noteq> 0 then 0
                                                 else lockedKeys, None), c1, sent)))))))"

type_synonym lockBatch_result =
  "(nat \<times> error option) \<times> resolveLockClient \<times> lb_attempt list \<times> sent_prewrite list"

fun lockBatch_loop ::
  "resolveLockClient \<Rightarrow> key list \<Rightarrow> lb_attempt list \<Rightarrow> lockBatch_result option" where
  "lockBatch_loop c keys [] = None"
| "lockBatch_loop c keys (a # as) =
     (case lockBatch_attempt c keys a of
        None \<Rightarrow> None
      | Some (Return r, c', sent) \<Rightarrow> Some (r, c', as, sent)
      | Some (Continue, c', sent) \<Rightarrow>
          map_option (\<lambda>(r, c'', rest, sent'). (r, c'', rest, sent @ sent'))
            (lockBatch_loop c' keys as))"

text \<open>\<^verbatim>\<open>lockBatch\<close>: the locked count and the error, the client, the unused part of the script,
  and the exchanges with the store, oldest first.\<close>

definition lockBatch ::
  "resolveLockClient \<Rightarrow> key list \<Rightarrow> lb_attempt list \<Rightarrow> lockBatch_result option" where
  "lockBatch c keys as =
     (if length keys = 0 then Some ((0, None), c, as, []) else lockBatch_loop c keys as)"

definition txnSize :: nat where
  "txnSize = 5"

type_synonym lock_result = "(nat \<times> error option) \<times> resolveLockClient \<times> lb_attempt list"

text \<open>The loop of \<^verbatim>\<open>lock\<close> over the remaining values of \<open>i\<close>.\<close>

fun lock_loop ::
  "resolveLockClient \<Rightarrow> 64 word \<Rightarrow> 64 word \<Rightarrow> int \<Rightarrow> int list \<Rightarrow> key list \<Rightarrow> nat
   \<Rightarrow> lb_attempt list \<Rightarrow> lock_result option" where
  "lock_loop c tableID handle limit [] keys locked as = Some ((locked, None), c, as)"
| "lock_loop c tableID handle limit (i # is) keys locked as =
     (let keys' = keys @ [EncodeRowKeyWithHandle tableID (handle + word_of_int i)]
      in if length keys' \<ge> txnSize \<or> i = limit - 1
         then (case lockBatch c keys' as of
                 None \<Rightarrow> None
               | Some ((cnt, Some e), c', as', sent) \<Rightarrow> Some ((0, Some e), c', as')
               | Some ((cnt, None), c', as', sent) \<Rightarrow>
                   lock_loop c' tableID handle limit is [] (locked + cnt) as')
         else lock_loop c tableID handle limit is keys' locked as)"

definition lock ::
  "resolveLockClient \<Rightarrow> 64 word \<Rightarrow> 64 word \<Rightarrow> int \<Rightarrow> lb_attempt list \<Rightarrow> lock_result option" where
  "lock c tableID handle limit as =
     lock_loop c tableID handle limit [0..limit - 1] [] 0 as"

section \<open>Lock generator\<close>

record task =
  task_tableID :: "64 word"
  task_handleID :: "64 word"
  task_limit :: int

text \<open>The case that a \<^verbatim>\<open>select\<close> of the dispatch loop takes: the context is done, or the
  ticker has fired. Go picks among the ready cases at random, so the choice belongs to the
  script.\<close>

datatype select_case = CtxDone | TickerC

text \<open>The dispatch loop of \<^verbatim>\<open>generateLocks\<close>, one \<^verbatim>\<open>select\<close> per table id; the result lists
  the tasks sent to \<^verbatim>\<open>taskCh\<close>. The \<^verbatim>\<open>break\<close> of the first case leaves the \<^verbatim>\<open>select\<close>
  statement, and the \<^verbatim>\<open>for\<close> loop goes on with the next table id.\<close>

fun dispatch :: "resolveLockClient \<Rightarrow> 64 word list \<Rightarrow> select_case list \<Rightarrow> task list option" where
  "dispatch c [] ss = Some []"
| "dispatch c (tableID # ids) [] = None"
| "dispatch c (tableID # ids) (CtxDone # ss) = dispatch c ids ss"
| "dispatch c (tableID # ids) (TickerC # ss) =
     map_option
       (\<lambda>ts. \<lparr>task_tableID = tableID, task_handleID = handleID c,
               task_limit = LockPerRegion (config c)\<rparr> # ts)
       (dispatch c ids ss)"

text \<open>
  The workers. A worker is \<open>Some locked\<close> while it ranges over \<^verbatim>\<open>taskCh\<close> and \<open>None\<close> once it
  has sent an error to \<^verbatim>\<open>resCh\<close> and returned. The tasks are taken in queue order, each one
  by a worker that the schedule picks among those still running, and a task is handled to
  its end before the next one is taken; when no worker is left the remaining tasks stay in
  the channel. \<open>err\<close> is the first error sent to \<^verbatim>\<open>resCh\<close>.
\<close>

type_synonym workers_result =
  "nat option list \<times> error option \<times> resolveLockClient \<times> lb_attempt list"

fun run_tasks ::
  "resolveLockClient \<Rightarrow> task list \<Rightarrow> nat list \<Rightarrow> lb_attempt list \<Rightarrow> nat option list
   \<Rightarrow> error option \<Rightarrow> workers_result option" where
  "run_tasks c [] sched as ws err = Some (ws, err, c, as)"
| "run_tasks c (t # ts) sched as ws err =
     (let live = filter (\<lambda>i. ws ! i \<noteq> None) [0..<length ws]
      in if live = [] then Some (ws, err, c, as)
         else (case sched of
                 [] \<Rightarrow> None
               | s # sched' \<Rightarrow>
                  (let w = live ! (s mod length live)
                   in case lock c (task_tableID t) (task_handleID t) (task_limit t) as of
                        None \<Rightarrow> None
                      | Some ((cnt, Some e), c', as') \<Rightarrow>
                          run_tasks c' ts sched' as' (ws[w := None])
                            (if err = None then Some e else err)
                      | Some ((cnt, None), c', as') \<Rightarrow>
                          run_tasks c' ts sched' as'
                            (ws[w := map_option (\<lambda>locked. locked + cnt) (ws ! w)]) err)))"

record gen_env =
  ge_select :: "select_case list"
  ge_sched :: "nat list"
  ge_writes :: "lb_attempt list"

fun worker_locked :: "nat option \<Rightarrow> nat" where
  "worker_locked None = 0"
| "worker_locked (Some locked) = locked"

definition generateLocks ::
  "resolveLockClient \<Rightarrow> gen_env \<Rightarrow> ((nat \<times> error option) \<times> resolveLockClient) option" where
  "generateLocks c env =
     (let workers = nat (Worker (config c)) in
      case dispatch c (tableIDs c) (ge_select env) of
        None \<Rightarrow> None
      | Some tasks \<Rightarrow>
         (case run_tasks c tasks (ge_sched env) (ge_writes env) (replicate workers (Some 0)) None of
            None \<Rightarrow> None
          | Some (ws, err, c', as') \<Rightarrow> Some ((sum_list (map worker_locked ws), err), c')))"

section \<open>Consistency checker\<close>

record LockInfo =
  li_Key :: key
  li_PrimaryLock :: key
  li_LockVersion :: ts

record Lock =
  lock_Key :: key
  lock_Primary :: key
  TxnID :: ts

text \<open>\<^verbatim>\<open>tikv.NewLock\<close> of the storage client library copies the fields.\<close>

definition NewLock :: "LockInfo \<Rightarrow> Lock" where
  "NewLock l = \<lparr>lock_Key = li_Key l, lock_Primary = li_PrimaryLock l, TxnID = li_LockVersion l\<rparr>"

record ScanLockRequest =
  Limit :: nat
  MaxVersion :: ts
  scan_StartKey :: key

record ScanLockResponse =
  sl_Error :: "string option"
  sl_Locks :: "LockInfo list"

record scan_attempt =
  sa_locate :: "error + KeyLocation"
  sa_send :: "error + ScanLockResponse Response"
  sa_resolve :: "error + bool"
  sa_backoff :: "error option"

text \<open>What \<^verbatim>\<open>CheckData\<close> hands to its collaborators: a scan-lock request to \<^verbatim>\<open>SendReq\<close>, a
  list of locks to \<^verbatim>\<open>BatchResolveLocks\<close>.\<close>

datatype scan_event = SentScanLock KeyLocation ScanLockRequest | BatchResolved "Lock list" KeyLocation

datatype scan_step = ScanReturn "error option" | ScanNext key | ScanBreak

definition scanLockLimit :: nat where
  "scanLockLimit = 100"

text \<open>The loop over \<^verbatim>\<open>locksInfo\<close> that sorts the locks of a page.\<close>

fun classify :: "ts \<Rightarrow> LockInfo list \<Rightarrow> Lock list \<Rightarrow> Lock list \<Rightarrow> Lock list \<times> Lock list" where
  "classify s [] safeLocks unsafeLocks = (safeLocks, unsafeLocks)"
| "classify s (info # infos) safeLocks unsafeLocks =
     (let l = NewLock info
      in if TxnID l < s then classify s infos (safeLocks @ [l]) unsafeLocks
         else classify s infos safeLocks (unsafeLocks @ [l]))"

text \<open>The cursor after a page that has been resolved.\<close>

definition next_cursor :: "KeyLocation \<Rightarrow> LockInfo list \<Rightarrow> key" where
  "next_cursor loc locksInfo =
     (if length locksInfo < scanLockLimit then loc_EndKey loc else li_Key (last locksInfo))"

text \<open>One iteration of the loop of \<^verbatim>\<open>CheckData\<close>: the step taken, the unsafe locks, and the
  calls made.\<close>

definition CheckData_iter ::
  "resolveLockClient \<Rightarrow> key \<Rightarrow> Lock list \<Rightarrow> scan_attempt
   \<Rightarrow> scan_step \<times> Lock list \<times> scan_event list" where
  "CheckData_iter c k unsafeLocks a =
     (case sa_locate a of
        Inl e \<Rightarrow> (ScanReturn (Some e), unsafeLocks, [])
      | Inr loc \<Rightarrow>
         (let req = \<lparr>Limit = 10, MaxVersion = safePoint c, scan_StartKey = k\<rparr>;
              ev = [SentScanLock loc req]
          in case sa_send a of
               Inl e \<Rightarrow> (ScanReturn (Some e), unsafeLocks, ev)
             | Inr resp \<Rightarrow>
                (case RegionError resp of
                   Inl e \<Rightarrow> (ScanReturn (Some e), unsafeLocks, ev)
                 | Inr (Some regionErr) \<Rightarrow>
                    (case sa_backoff a of
                       Some e \<Rightarrow> (ScanReturn (Some e), unsafeLocks, ev)
                     | None \<Rightarrow> (ScanNext k, unsafeLocks, ev))
                 | Inr None \<Rightarrow>
                    (case Resp resp of
                       None \<Rightarrow> (ScanReturn (Some (ErrMsg ''missing response body'')), unsafeLocks, ev)
                     | Some scanLockResp \<Rightarrow>
                        (case sl_Error scanLockResp of
                           Some keyErr \<Rightarrow>
                             (ScanReturn (Some (ErrMsg (''unexpected scanlock error: '' @ keyErr))),
                              unsafeLocks, ev)
                         | None \<Rightarrow>
                            (let locksInfo = sl_Locks scanLockResp;
                                 (safeLocks, unsafeLocks') =
                                    classify (safeLockTs c) locksInfo [] unsafeLocks;
                                 ev' = ev @ [BatchResolved safeLocks loc]
                             in case sa_resolve a of
                                  Inl e \<Rightarrow> (ScanReturn (Some e), unsafeLocks', ev')
                                | Inr ok \<Rightarrow>
                                   if \<not> ok then
                                     (case sa_backoff a of
                                        Some e \<Rightarrow> (ScanReturn (Some e), unsafeLocks', ev')
                                      | None \<Rightarrow> (ScanNext k, unsafeLocks', ev'))
                                   else
                                     (let k' = next_cursor loc locksInfo
                                      in if length k' = 0 then (ScanBreak, unsafeLocks', ev')
                                         else (ScanNext k', unsafeLocks', ev'))))))))"

type_synonym check_result = "Lock list \<times> error option \<times> scan_event list"

fun CheckData_loop ::
  "resolveLockClient \<Rightarrow> key \<Rightarrow> Lock list \<Rightarrow> scan_attempt list \<Rightarrow> check_result option" where
  "CheckData_loop c k unsafeLocks [] = None"
| "CheckData_loop c k unsafeLocks (a # as) =
     (case CheckData_iter c k unsafeLocks a of
        (ScanReturn e, u, ev) \<Rightarrow> Some (u, e, ev)
      | (ScanBreak, u, ev) \<Rightarrow> Some (u, None, ev)
      | (ScanNext k', u, ev) \<Rightarrow>
          map_option (\<lambda>(u', e, ev'). (u', e, ev @ ev')) (CheckData_loop c k' u as))"

text \<open>\<^verbatim>\<open>CheckData\<close>: the unsafe locks, the error, and the calls made, oldest first.\<close>

definition CheckData :: "resolveLockClient \<Rightarrow> scan_attempt list \<Rightarrow> check_result option" where
  "CheckData c as = CheckData_loop c [] [] as"

section \<open>GC driver and round controller\<close>

text \<open>The reply of the GC endpoint: the request fails, the body does not parse, or the body
  carries \<^verbatim>\<open>physicalUsed\<close>.\<close>

datatype http_reply = HttpError error | BadBody error | Body bool

fun resolveLocks :: "http_reply \<Rightarrow> bool \<times> error option" where
  "resolveLocks (HttpError e) = (False, Some e)"
| "resolveLocks (BadBody e) = (False, Some e)"
| "resolveLocks (Body physicalUsed) = (physicalUsed, None)"

fun has_prefix :: "string \<Rightarrow> string \<Rightarrow> bool" where
  "has_prefix s [] = True"
| "has_prefix [] (p # ps) = False"
| "has_prefix (x # xs) (p # ps) = (x = p \<and> has_prefix xs ps)"

fun strings_Contains :: "string \<Rightarrow> string \<Rightarrow> bool" where
  "strings_Contains [] sub = (sub = [])"
| "strings_Contains (x # xs) sub = (has_prefix (x # xs) sub \<or> strings_Contains xs sub)"

definition retriable :: "error \<Rightarrow> bool" where
  "retriable e \<longleftrightarrow>
     \<not> (\<not> (strings_Contains (error_msg e) ''region unavailable''
            \<or> strings_Contains (error_msg e) ''Region is unavailable'')
        \<and> \<not> strings_Contains (error_msg e) ''unexpected scanlock error: error:<locked'')"

datatype gc_outcome = GCFailed error | GCDone bool

text \<open>The loop that invokes GC up to five times, with the values of \<^verbatim>\<open>greenGCUsed\<close> and
  \<^verbatim>\<open>err\<close> so far, and the test of \<^verbatim>\<open>err\<close> that follows the loop.\<close>

fun gc_loop :: "nat \<Rightarrow> bool \<Rightarrow> error option \<Rightarrow> http_reply list \<Rightarrow> gc_outcome option" where
  "gc_loop 0 greenGCUsed err rs =
     Some (case err of Some e \<Rightarrow> GCFailed e | None \<Rightarrow> GCDone greenGCUsed)"
| "gc_loop (Suc n) greenGCUsed err [] = None"
| "gc_loop (Suc n) greenGCUsed err (r # rs) =
     (case resolveLocks r of
        (used, None) \<Rightarrow> Some (GCDone used)
      | (used, Some e) \<Rightarrow> if \<not> retriable e then Some (GCFailed e) else gc_loop n used (Some e) rs)"

text \<open>The scripts of one round of \<^verbatim>\<open>Start\<close>: whether the context is done at the top of the
  loop, the PD replies for the two timestamps, the two lock generations, the GC replies and
  the scan.\<close>

record round_env =
  re_done :: bool
  re_ts :: "pd_attempt list"
  re_generate :: gen_env
  re_async :: gen_env
  re_safePoint :: "pd_attempt list"
  re_gc :: "http_reply list"
  re_scan :: "scan_attempt list"

datatype 'a phase = Exit "error option" | Proceed 'a

text \<open>A round from the top of the loop to the end of the GC invocations. The goroutine of
  \<^verbatim>\<open>asyncGenerateLocksDuringGC\<close> shares only \<^verbatim>\<open>mockLockTs\<close> with this part, which does not read
  it; its run is placed where it is joined, in \<open>round_check\<close>.\<close>

definition round_to_gc ::
  "resolveLockClient \<Rightarrow> round_env \<Rightarrow> (resolveLockClient \<times> bool) phase option" where
  "round_to_gc c r =
     (if re_done r then Some (Exit None)
      else case getTs (re_ts r) of
        None \<Rightarrow> None
      | Some (ts, Some e) \<Rightarrow> Some (Exit (Some e))
      | Some (ts, None) \<Rightarrow>
         if ts = 0 then Some (Exit None)
         else (case generateLocks c (re_generate r) of
            None \<Rightarrow> None
          | Some ((locked, Some e), c1) \<Rightarrow> Some (Exit (Some e))
          | Some ((locked, None), c1) \<Rightarrow>
             (let c2 = asyncGenerateLocksDuringGC c1 ts in
              case getTs (re_safePoint r) of
                None \<Rightarrow> None
              | Some (sp, err) \<Rightarrow>
                 (let c3 = c2\<lparr>safePoint := sp\<rparr> in
                  case err of
                    Some e \<Rightarrow> Some (Exit (Some e))
                  | None \<Rightarrow>
                     if ts = 0 then Some (Exit None)
                     else (case gc_loop 5 False None (re_gc r) of
                        None \<Rightarrow> None
                      | Some (GCFailed e) \<Rightarrow> Some (Exit (Some e))
                      | Some (GCDone greenGCUsed) \<Rightarrow> Some (Proceed (c3, greenGCUsed)))))))"

text \<open>The rest of a round: the join with the goroutine, the check, the reset.\<close>

definition round_check :: "resolveLockClient \<Rightarrow> round_env \<Rightarrow> resolveLockClient phase option" where
  "round_check c r =
     (case generateLocks c (re_async r) of
        None \<Rightarrow> None
      | Some (res, c4) \<Rightarrow>
         (case CheckData c4 (re_scan r) of
            None \<Rightarrow> None
          | Some (unsafeLocks, err, ev) \<Rightarrow>
             if length unsafeLocks \<noteq> 0
             then Some (Exit (Some (ErrMsg ''green GC check data failed'')))
             else (case err of
                     Some e \<Rightarrow> Some (Exit (Some e))
                   | None \<Rightarrow> Some (Proceed (reset c4)))))"

text \<open>The loop of \<^verbatim>\<open>Start\<close>, one script per round. The result is what \<^verbatim>\<open>Start\<close> returns,
  together with the \<^verbatim>\<open>loopNum\<close> of the round that returned.\<close>

fun Start_loop ::
  "resolveLockClient \<Rightarrow> int \<Rightarrow> int \<Rightarrow> round_env list \<Rightarrow> (error option \<times> int) option" where
  "Start_loop c loopNum lastGreenGC [] = None"
| "Start_loop c loopNum lastGreenGC (r # rs) =
     (case round_to_gc c r of
        None \<Rightarrow> None
      | Some (Exit e) \<Rightarrow> Some (e, loopNum)
      | Some (Proceed (c3, greenGCUsed)) \<Rightarrow>
         (let lastGreenGC' = (if greenGCUsed then loopNum else lastGreenGC)
          in if EnableGreenGC (config c3) \<and> loopNum - lastGreenGC' > 50
             then Some (Some (ErrMsg ''green gc failed to run for over 50 times''), loopNum)
             else (case round_check c3 r of
                     None \<Rightarrow> None
                   | Some (Exit e) \<Rightarrow> Some (e, loopNum)
                   | Some (Proceed c5) \<Rightarrow> Start_loop c5 (loopNum + 1) lastGreenGC' rs)))"

definition Start :: "resolveLockClient \<Rightarrow> round_env list \<Rightarrow> (error option \<times> int) option" where
  "Start c rs = Start_loop c 0 (- 1) rs"

section \<open>Notions used in the statements\<close>


text \<open>The store accepts the write of a task: the region located holds every row key of the
  task, the timestamp source answers with a timestamp that is not zero, and the prewrite
  response has neither a region error nor key errors.\<close>

definition accepted_write :: "resolveLockClient \<Rightarrow> lb_attempt \<Rightarrow> 64 word \<Rightarrow> bool" where
  "accepted_write c a tableID \<longleftrightarrow>
     (case lb_locate a of
        Inl e \<Rightarrow> False
      | Inr loc \<Rightarrow>
          list_all (\<lambda>i. Contains loc (EncodeRowKeyWithHandle tableID (handleID c + word_of_int i)))
            [0..LockPerRegion (config c) - 1])
     \<and> (case getTs (lb_pd a) of
          Some (ts, None) \<Rightarrow> ts \<noteq> 0
        | _ \<Rightarrow> False)
     \<and> (case lb_send a of
          Inl e \<Rightarrow> False
        | Inr resp \<Rightarrow>
            RegionError resp = Inr None
            \<and> (case Resp resp of None \<Rightarrow> False | Some pr \<Rightarrow> GetErrors pr = []))"

text \<open>The rounds of a script all run to their end with GC reporting \<^verbatim>\<open>physicalUsed = false\<close>:
  every round passes the timestamp, generation and GC steps, and its check finds nothing.
  The result is the client after the last of them.\<close>

fun quiet_rounds :: "resolveLockClient \<Rightarrow> round_env list \<Rightarrow> resolveLockClient option" where
  "quiet_rounds c [] = Some c"
| "quiet_rounds c (r # rs) =
     (case round_to_gc c r of
        Some (Proceed (c3, False)) \<Rightarrow>
          (case round_check c3 r of
             Some (Proceed c5) \<Rightarrow> quiet_rounds c5 rs
           | _ \<Rightarrow> None)
      | _ \<Rightarrow> None)"

section \<open>Concrete inputs\<close>

definition c_demo :: resolveLockClient where
  "c_demo = \<lparr>config = \<lparr>EnableGreenGC = True, RegionCount = 1, LockPerRegion = 1, Worker = 1,
                LocalMode = True\<rparr>,
     tableIDs = [7], handleID = 0, safePoint = 0, safeLockTs = 0, mockLockTs = 0\<rparr>"

definition loc_all :: KeyLocation where
  "loc_all = \<lparr>loc_Region = 1, loc_StartKey = [], loc_EndKey = []\<rparr>"

definition pd_ok :: pd_attempt where
  "pd_ok = \<lparr>pd_physical = 1, pd_logical = 1, pd_err = None, ctx_err = False, pd_backoff = None\<rparr>"

definition pd_down :: pd_attempt where
  "pd_down = \<lparr>pd_physical = 0, pd_logical = 0, pd_err = Some IoEOF, ctx_err = False,
     pd_backoff = Some (ErrMsg ''pdRPC backoffer.maxSleep 60000ms is exceeded'')\<rparr>"

definition write_ok :: lb_attempt where
  "write_ok = \<lparr>lb_locate = Inr loc_all, lb_pd = [pd_ok],
     lb_send = Inr \<lparr>RegionError = Inr None, Resp = Some (PrewriteResponse [])\<rparr>,
     lb_backoff = None\<rparr>"

definition write_conflict :: lb_attempt where
  "write_conflict = \<lparr>lb_locate = Inr loc_all, lb_pd = [pd_ok],
     lb_send = Inr \<lparr>RegionError = Inr None, Resp = Some (PrewriteResponse [''conflict''])\<rparr>,
     lb_backoff = None\<rparr>"

definition write_region_miss :: lb_attempt where
  "write_region_miss = \<lparr>lb_locate = Inr loc_all, lb_pd = [pd_ok],
     lb_send = Inr \<lparr>RegionError = Inr (Some ''epoch not match''), Resp = None\<rparr>,
     lb_backoff = None\<rparr>"



definition c_three :: resolveLockClient where
  "c_three = \<lparr>config = \<lparr>EnableGreenGC = True, RegionCount = 3, LockPerRegion = 1, Worker = 1,
                LocalMode = True\<rparr>,
     tableIDs = [1, 2, 3], handleID = 1, safePoint = 0, safeLockTs = 9, mockLockTs = 9\<rparr>"

definition c_five :: resolveLockClient where
  "c_five = \<lparr>config = \<lparr>EnableGreenGC = False, RegionCount = 5, LockPerRegion = 3, Worker = 2,
                LocalMode = True\<rparr>,
     tableIDs = [1, 2, 3, 4, 5], handleID = 0, safePoint = 0, safeLockTs = 0, mockLockTs = 0\<rparr>"

definition env_five :: gen_env where
  "env_five = \<lparr>ge_select = [TickerC, TickerC, TickerC, TickerC, TickerC],
     ge_sched = [0, 1, 1, 0, 1],
     ge_writes = [write_ok, write_ok, write_ok, write_ok, write_ok]\<rparr>"

definition c_scan :: resolveLockClient where
  "c_scan = \<lparr>config = \<lparr>EnableGreenGC = True, RegionCount = 1, LockPerRegion = 1, Worker = 1,
                LocalMode = True\<rparr>,
     tableIDs = [7], handleID = 1, safePoint = 20, safeLockTs = 10, mockLockTs = 9\<rparr>"

definition loc_first :: KeyLocation where
  "loc_first = \<lparr>loc_Region = 1, loc_StartKey = [], loc_EndKey = [0x75]\<rparr>"


definition safe_lock :: LockInfo where
  "safe_lock = \<lparr>li_Key = [0x74, 1], li_PrimaryLock = [0x74, 1], li_LockVersion = 9\<rparr>"

definition unsafe_lock :: LockInfo where
  "unsafe_lock = \<lparr>li_Key = [0x74, 2], li_PrimaryLock = [0x74, 2], li_LockVersion = 12\<rparr>"

definition scan_page :: "KeyLocation \<Rightarrow> LockInfo list \<Rightarrow> scan_attempt" where
  "scan_page loc locks = \<lparr>sa_locate = Inr loc,
     sa_send = Inr \<lparr>RegionError = Inr None,
                    Resp = Some \<lparr>sl_Error = None, sl_Locks = locks\<rparr>\<rparr>,
     sa_resolve = Inr True, sa_backoff = None\<rparr>"

definition pd_later :: pd_attempt where
  "pd_later = \<lparr>pd_physical = 2, pd_logical = 1, pd_err = None, ctx_err = False,
     pd_backoff = None\<rparr>"

definition env_one :: gen_env where
  "env_one = \<lparr>ge_select = [TickerC], ge_sched = [0], ge_writes = [write_ok]\<rparr>"

definition race_lock :: LockInfo where
  "race_lock = \<lparr>li_Key = EncodeRowKeyWithHandle 7 1, li_PrimaryLock = EncodeRowKeyWithHandle 7 1,
     li_LockVersion = 262144\<rparr>"

definition leaked_lock :: LockInfo where
  "leaked_lock = \<lparr>li_Key = EncodeRowKeyWithHandle 7 0, li_PrimaryLock = EncodeRowKeyWithHandle 7 0,
     li_LockVersion = 262150\<rparr>"

definition r_quiet :: round_env where
  "r_quiet = \<lparr>re_done = False, re_ts = [pd_ok], re_generate = env_one, re_async = env_one,
     re_safePoint = [pd_later], re_gc = [Body False],
     re_scan = [scan_page loc_all [race_lock]]\<rparr>"

definition r_unsafe :: round_env where
  "r_unsafe = \<lparr>re_done = False, re_ts = [pd_ok], re_generate = env_one, re_async = env_one,
     re_safePoint = [pd_later], re_gc = [Body True],
     re_scan = [scan_page loc_all [leaked_lock, race_lock]]\<rparr>"

definition r_pd_down :: round_env where
  "r_pd_down = \<lparr>re_done = False, re_ts = [pd_ok], re_generate = env_one, re_async = env_one,
     re_safePoint = [pd_down], re_gc = [HttpError (ErrMsg ''connection refused'')],
     re_scan = []\<rparr>"

definition c_gc :: resolveLockClient where
  "c_gc = c_demo\<lparr>handleID := 1, safePoint := 524289, safeLockTs := 262145, mockLockTs := 262145\<rparr>"

section \<open>Race-window timestamps\<close>

lemma getLockTs_mock:
  assumes "mockLockTs c \<noteq> 0"
  shows "getLockTs c pds = Some ((mockLockTs c - 1, None), c\<lparr>mockLockTs := mockLockTs c - 1\<rparr>)"
  using assms by (simp add: getLockTs_def Let_def)

lemma word_pred_less:
  fixes m :: ts
  assumes "m \<noteq> 0"
  shows "m - 1 < m"
  using assms by (simp add: word_less_nat_alt unat_minus_one unat_gt_0)

lemma raceWindowTs_below:
  "mockLockTs c \<le> b \<Longrightarrow> t \<in> set (raceWindowTs n c) \<Longrightarrow> t < mockLockTs c \<and> t < b"
proof (induction n arbitrary: c)
  case 0
  then show ?case by simp
next
  case (Suc n)
  show ?case
  proof (cases "mockLockTs c = 0")
    case True
    with Suc.prems show ?thesis by simp
  next
    case False
    let ?c' = "c\<lparr>mockLockTs := mockLockTs c - 1\<rparr>"
    have lt: "mockLockTs c - 1 < mockLockTs c" using False by (rule word_pred_less)
    from Suc.prems(2) False
    have "t = mockLockTs c - 1 \<or> t \<in> set (raceWindowTs n ?c')"
      by (simp add: getLockTs_mock)
    then show ?thesis
    proof
      assume "t = mockLockTs c - 1"
      with lt Suc.prems(1) show ?thesis by auto
    next
      assume mem: "t \<in> set (raceWindowTs n ?c')"
      have "mockLockTs ?c' \<le> b" using lt Suc.prems(1) by simp
      from Suc.IH [OF this mem] lt Suc.prems(1) show ?thesis by auto
    qed
  qed
qed

lemma raceWindowTs_decreasing: "sorted_wrt (\<lambda>a b. b < a) (raceWindowTs n c)"
proof (induction n arbitrary: c)
  case 0
  then show ?case by simp
next
  case (Suc n)
  show ?case
  proof (cases "mockLockTs c = 0")
    case True
    then show ?thesis by simp
  next
    case False
    let ?c' = "c\<lparr>mockLockTs := mockLockTs c - 1\<rparr>"
    have "\<forall>t \<in> set (raceWindowTs n ?c'). t < mockLockTs c - 1"
      using raceWindowTs_below [of ?c' "mockLockTs c - 1"] by simp
    with False Suc.IH [of ?c'] show ?thesis
      by (simp add: getLockTs_mock)
  qed
qed

text \<open>
  Claim C2. After \<^verbatim>\<open>asyncGenerateLocksDuringGC\<close> has seeded the mock counter with
  \<^verbatim>\<open>safeLockTs\<close>, every timestamp that \<^verbatim>\<open>getLockTs\<close> hands out while the counter is not zero is
  strictly below \<^verbatim>\<open>safeLockTs\<close>, and successive calls return strictly decreasing values.
\<close>

theorem race_window_ts_below_safeLockTs:
  "(\<forall>t \<in> set (raceWindowTs n (asyncGenerateLocksDuringGC c ts)). t < safeLockTs (asyncGenerateLocksDuringGC c ts))
   \<and> sorted_wrt (\<lambda>a b. b < a) (raceWindowTs n (asyncGenerateLocksDuringGC c ts))"
proof
  have "mockLockTs (asyncGenerateLocksDuringGC c ts) \<le> safeLockTs (asyncGenerateLocksDuringGC c ts)"
    by (simp add: asyncGenerateLocksDuringGC_def)
  then show "\<forall>t \<in> set (raceWindowTs n (asyncGenerateLocksDuringGC c ts)). t < safeLockTs (asyncGenerateLocksDuringGC c ts)"
    using raceWindowTs_below by blast
next
  show "sorted_wrt (\<lambda>a b. b < a) (raceWindowTs n (asyncGenerateLocksDuringGC c ts))"
    by (rule raceWindowTs_decreasing)
qed

theorem race_window_ts_below_safeLockTs_witness:
  "raceWindowTs 5 (asyncGenerateLocksDuringGC c_demo 3) = [2, 1, 0]
   \<and> 2 \<in> set (raceWindowTs 5 (asyncGenerateLocksDuringGC c_demo 3))
   \<and> (2 :: ts) < safeLockTs (asyncGenerateLocksDuringGC c_demo 3)"
proof -
  have five: "(5 :: nat) = Suc (Suc (Suc (Suc (Suc 0))))" by simp
  have run: "raceWindowTs 5 (asyncGenerateLocksDuringGC c_demo 3) = [2, 1, 0]"
    unfolding five by (simp add: asyncGenerateLocksDuringGC_def c_demo_def getLockTs_def)
  then have mem: "2 \<in> set (raceWindowTs 5 (asyncGenerateLocksDuringGC c_demo 3))" by simp
  with race_window_ts_below_safeLockTs [of 5 c_demo 3]
  have "(2 :: ts) < safeLockTs (asyncGenerateLocksDuringGC c_demo 3)" by blast
  with run mem show ?thesis by blast
qed

section \<open>Lock writer: batches and conflicts\<close>






lemma Contains_whole_keyspace [simp]:
  "loc_StartKey l = [] \<Longrightarrow> loc_EndKey l = [] \<Longrightarrow> Contains l k"
  by (cases k) (simp_all add: Contains_def)

lemma length_EncodeRowKeyWithHandle [simp]: "length (EncodeRowKeyWithHandle t h) = 19"
  by (simp add: EncodeRowKeyWithHandle_def EncodeInt_def)

lemma lockBatch_attempt_key_errors:
  assumes "lockBatch_attempt c keys a = Some (step, c', sent)"
      and "(loc, req, Inr resp) \<in> set sent"
      and "RegionError resp = Inr None" and "Resp resp = Some pr" and "GetErrors pr \<noteq> []"
  shows "step = Return (0, None)"
  using assms
  by (auto simp: lockBatch_attempt_def Let_def
           split: sum.splits option.splits prod.splits if_splits)

lemma lockBatch_loop_key_errors:
  assumes "lockBatch_loop c keys as = Some (res, c', rest, sent)"
      and "(loc, req, Inr resp) \<in> set sent"
      and "RegionError resp = Inr None" and "Resp resp = Some pr" and "GetErrors pr \<noteq> []"
  shows "res = (0, None)"
  using assms(1,2)
proof (induction as arbitrary: c sent)
  case Nil
  then show ?case by simp
next
  case (Cons a as)
  from Cons.prems(1) obtain step c1 sent1
    where att: "lockBatch_attempt c keys a = Some (step, c1, sent1)"
    by (auto split: option.splits)
  note here = lockBatch_attempt_key_errors [OF att _ assms(3,4,5)]
  show ?case
  proof (cases step)
    case (Return r)
    with att Cons.prems have "(loc, req, Inr resp) \<in> set sent1" and "res = r" by auto
    with here Return show ?thesis by simp
  next
    case Continue
    with att Cons.prems(1) obtain sent2
      where rec: "lockBatch_loop c1 keys as = Some (res, c', rest, sent2)"
        and sent: "sent = sent1 @ sent2"
      by auto
    have "(loc, req, Inr resp) \<notin> set sent1" using here Continue by auto
    with Cons.prems(2) sent have "(loc, req, Inr resp) \<in> set sent2" by simp
    from Cons.IH [OF rec this] show ?thesis .
  qed
qed

lemma lockBatch_attempt_conflict:
  assumes "keys \<noteq> []" and "lb_locate a = Inr loc"
      and "getLockTs c (lb_pd a) = Some ((startTs, None), c1)" and "startTs \<noteq> 0"
      and "Contains loc (hd keys)"
      and "lb_send a = Inr resp" and "RegionError resp = Inr None"
      and "Resp resp = Some pr" and "GetErrors pr \<noteq> []"
  shows "\<exists>req. lockBatch_attempt c keys a = Some (Return (0, None), c1, [(loc, req, Inr resp)])"
proof -
  from assms(1,5) have "collect_mutations loc 0 keys \<noteq> []"
    by (cases keys) (auto simp: Let_def)
  with assms show ?thesis
    by (simp add: lockBatch_attempt_def Let_def)
qed

text \<open>
  Claim C7. A prewrite response that carries per-key errors gives the batch no credit and
  no failure: whenever \<^verbatim>\<open>lockBatch\<close> returns after an exchange in which the store answered
  with such a response (no region error, body present), it returns the count 0 and no
  error; and when the store answers the request of an iteration in this way,
  \<^verbatim>\<open>lockBatch\<close> does return, with the count 0 and no error.
\<close>

theorem lockBatch_key_errors_no_credit:
  "(lockBatch c keys as = Some (res, c', rest, sent) \<and> (loc, req, Inr resp) \<in> set sent
      \<and> RegionError resp = Inr None \<and> Resp resp = Some pr \<and> GetErrors pr \<noteq> []
     \<longrightarrow> res = (0, None))
   \<and> (keys \<noteq> [] \<and> lb_locate a = Inr loc \<and> getLockTs c (lb_pd a) = Some ((startTs, None), c1)
      \<and> startTs \<noteq> 0 \<and> Contains loc (hd keys)
      \<and> lb_send a = Inr resp \<and> RegionError resp = Inr None \<and> Resp resp = Some pr
      \<and> GetErrors pr \<noteq> []
     \<longrightarrow> (\<exists>req'. lockBatch c keys (a # as') = Some ((0, None), c1, as', [(loc, req', Inr resp)])))"
proof (intro conjI impI)
  assume h: "lockBatch c keys as = Some (res, c', rest, sent) \<and> (loc, req, Inr resp) \<in> set sent
      \<and> RegionError resp = Inr None \<and> Resp resp = Some pr \<and> GetErrors pr \<noteq> []"
  then have "keys \<noteq> []" by (auto simp: lockBatch_def split: if_splits)
  with h have "lockBatch_loop c keys as = Some (res, c', rest, sent)"
    by (simp add: lockBatch_def)
  with h show "res = (0, None)" using lockBatch_loop_key_errors by blast
next
  assume h: "keys \<noteq> [] \<and> lb_locate a = Inr loc
      \<and> getLockTs c (lb_pd a) = Some ((startTs, None), c1)
      \<and> startTs \<noteq> 0 \<and> Contains loc (hd keys)
      \<and> lb_send a = Inr resp \<and> RegionError resp = Inr None \<and> Resp resp = Some pr
      \<and> GetErrors pr \<noteq> []"
  then obtain req' where
    "lockBatch_attempt c keys a = Some (Return (0, None), c1, [(loc, req', Inr resp)])"
    using lockBatch_attempt_conflict by blast
  with h show "\<exists>req'. lockBatch c keys (a # as') = Some ((0, None), c1, as', [(loc, req', Inr resp)])"
    by (auto simp: lockBatch_def)
qed


theorem lockBatch_key_errors_no_credit_witness:
  "[EncodeRowKeyWithHandle 7 0] \<noteq> [] \<and> lb_locate write_conflict = Inr loc_all
   \<and> getLockTs c_demo (lb_pd write_conflict) = Some ((262145, None), c_demo)
   \<and> (262145 :: ts) \<noteq> 0 \<and> Contains loc_all (hd [EncodeRowKeyWithHandle 7 0])
   \<and> lb_send write_conflict
        = Inr \<lparr>RegionError = Inr None, Resp = Some (PrewriteResponse [''conflict''])\<rparr>
   \<and> GetErrors (PrewriteResponse [''conflict'']) \<noteq> []
   \<and> (\<exists>req'. lockBatch c_demo [EncodeRowKeyWithHandle 7 0] [write_conflict, write_ok]
         = Some ((0, None), c_demo, [write_ok],
             [(loc_all, req',
               Inr \<lparr>RegionError = Inr None, Resp = Some (PrewriteResponse [''conflict''])\<rparr>)]))"
proof -
  have ts: "getLockTs c_demo (lb_pd write_conflict) = Some ((262145, None), c_demo)"
    by (simp add: getLockTs_def c_demo_def write_conflict_def pd_ok_def ComposeTS_def)
  have send: "lb_send write_conflict
                = Inr \<lparr>RegionError = Inr None, Resp = Some (PrewriteResponse [''conflict''])\<rparr>"
    by (simp add: write_conflict_def)
  have loc: "lb_locate write_conflict = Inr loc_all"
    by (simp add: write_conflict_def)
  have inside: "Contains loc_all (hd [EncodeRowKeyWithHandle 7 0])"
    by (simp add: loc_all_def)
  from lockBatch_key_errors_no_credit
      [where c = c_demo and keys = "[EncodeRowKeyWithHandle 7 0]"
         and resp = "\<lparr>RegionError = Inr None, Resp = Some (PrewriteResponse [''conflict''])\<rparr>"
         and pr = "PrewriteResponse [''conflict'']" and a = write_conflict and loc = loc_all
         and startTs = 262145 and ?c1.0 = c_demo and as' = "[write_ok]"]
    ts send loc inside
  have "\<exists>req'. lockBatch c_demo [EncodeRowKeyWithHandle 7 0] [write_conflict, write_ok]
         = Some ((0, None), c_demo, [write_ok],
             [(loc_all, req',
               Inr \<lparr>RegionError = Inr None, Resp = Some (PrewriteResponse [''conflict''])\<rparr>)])"
    by simp
  with ts send loc inside show ?thesis by simp
qed



section \<open>Lock generator: dispatch and totals\<close>

lemma dispatch_all_ticks:
  "CtxDone \<notin> set ss \<Longrightarrow> length ids \<le> length ss \<Longrightarrow>
   dispatch c ids ss
     = Some (map (\<lambda>t. \<lparr>task_tableID = t, task_handleID = handleID c,
                         task_limit = LockPerRegion (config c)\<rparr>) ids)"
proof (induction ids arbitrary: ss)
  case Nil
  then show ?case by simp
next
  case (Cons t ids)
  then obtain s ss' where ss: "ss = s # ss'" by (cases ss) auto
  with Cons.prems have "s = TickerC" by (cases s) auto
  with Cons ss show ?case by simp
qed

lemma collect_mutations_all:
  "\<forall>k \<in> set ks. Contains loc k \<Longrightarrow>
   bs + sum_list (map (\<lambda>k. length k + 1) ks) < maxBatchSize \<Longrightarrow>
   length (collect_mutations loc bs ks) = length ks"
  by (induction ks arbitrary: bs) (auto simp: Let_def)

lemma lockBatch_accepted:
  assumes "keys \<noteq> []" and "mockLockTs c = 0"
      and "lb_locate a = Inr loc" and "\<forall>k \<in> set keys. Contains loc k"
      and "sum_list (map (\<lambda>k. length k + 1) keys) < maxBatchSize"
      and "getTs (lb_pd a) = Some (ts, None)" and "ts \<noteq> 0"
      and "lb_send a = Inr resp" and "RegionError resp = Inr None"
      and "Resp resp = Some pr" and "GetErrors pr = []"
  shows "\<exists>sent. lockBatch c keys (a # as) = Some ((length keys, None), c, as, sent)"
proof -
  have "length (collect_mutations loc 0 keys) = length keys"
    using collect_mutations_all [of keys loc 0] assms(4,5) by simp
  moreover from this assms(1) have "collect_mutations loc 0 keys \<noteq> []" by auto
  ultimately show ?thesis using assms
    by (simp add: lockBatch_def lockBatch_attempt_def getLockTs_def Let_def)
qed

lemma upto_0_2: "[0..(2::int)] = [0, 1, 2]"
  by (simp add: upto_rec1)

lemma lock_three_accepted:
  assumes "mockLockTs c = 0" and "LockPerRegion (config c) = 3" and "handleID c = h"
      and "accepted_write c a t"
  shows "lock c t h 3 (a # as) = Some ((3, None), c, as)"
proof -
  let ?keys = "[EncodeRowKeyWithHandle t (h + word_of_int 0),
                EncodeRowKeyWithHandle t (h + word_of_int 1),
                EncodeRowKeyWithHandle t (h + word_of_int 2)]"
  from assms(4) obtain loc where loc: "lb_locate a = Inr loc"
    by (auto simp: accepted_write_def split: sum.splits)
  from assms(4) loc assms(2,3) have inside: "\<forall>k \<in> set ?keys. Contains loc k"
    by (simp add: accepted_write_def upto_0_2)
  from assms(4) obtain ts where ts: "getTs (lb_pd a) = Some (ts, None)" "ts \<noteq> 0"
    by (auto simp: accepted_write_def split: option.splits prod.splits)
  from assms(4) obtain resp pr where resp: "lb_send a = Inr resp" "RegionError resp = Inr None"
      "Resp resp = Some pr" "GetErrors pr = []"
    by (auto simp: accepted_write_def split: sum.splits option.splits)
  have size: "sum_list (map (\<lambda>k. length k + 1) ?keys) < maxBatchSize"
    by (simp add: maxBatchSize_def)
  from lockBatch_accepted [OF _ assms(1) loc inside size ts resp, of as]
  obtain sent where "lockBatch c ?keys (a # as) = Some ((3, None), c, as, sent)"
    by auto
  then show ?thesis
    by (simp add: lock_def upto_0_2 txnSize_def)
qed

lemma live_all:
  "None \<notin> set ws \<Longrightarrow> filter (\<lambda>i. ws ! i \<noteq> None) [0..<length ws] = [0..<length ws]"
  by (rule filter_True) (auto simp: in_set_conv_nth)

lemma live_all_ex:
  "None \<notin> set ws \<Longrightarrow> filter (\<lambda>i. \<exists>y. ws ! i = Some y) [0..<length ws] = [0..<length ws]"
  using live_all [of ws] by simp

lemma worker_locked_update:
  "w < length ws \<Longrightarrow> ws ! w = Some l \<Longrightarrow>
   sum_list (map worker_locked (ws[w := Some (l + n)])) = sum_list (map worker_locked ws) + n"
proof (induction ws arbitrary: w)
  case Nil
  then show ?case by simp
next
  case (Cons x ws)
  then show ?case by (cases w) auto
qed

lemma run_tasks_accepted:
  assumes "mockLockTs c = 0" and "LockPerRegion (config c) = 3"
  shows "list_all2 (accepted_write c) (take (length ids) writes) ids \<Longrightarrow>
         length ids \<le> length sched \<Longrightarrow> ws \<noteq> [] \<Longrightarrow> None \<notin> set ws \<Longrightarrow>
         \<exists>ws'. run_tasks c
                  (map (\<lambda>t. \<lparr>task_tableID = t, task_handleID = handleID c,
                              task_limit = LockPerRegion (config c)\<rparr>) ids)
                  sched writes ws err
                = Some (ws', err, c, drop (length ids) writes)
              \<and> sum_list (map worker_locked ws') = sum_list (map worker_locked ws) + 3 * length ids"
proof (induction ids arbitrary: sched writes ws)
  case Nil
  then show ?case by simp
next
  case (Cons t ids)
  from Cons.prems(1) obtain a writes' where writes: "writes = a # writes'"
    by (cases writes) auto
  with Cons.prems(1) have acc: "accepted_write c a t"
    and rest: "list_all2 (accepted_write c) (take (length ids) writes') ids"
    by auto
  from Cons.prems(2) obtain s sched' where sched: "sched = s # sched'"
    by (cases sched) auto
  let ?w = "s mod length ws"
  have w: "?w < length ws" using Cons.prems(3) by simp
  with Cons.prems(4) obtain l where l: "ws ! ?w = Some l"
    by (metis nth_mem not_None_eq)
  let ?ws = "ws[?w := Some (l + 3)]"
  have ws_ne: "?ws \<noteq> []" using Cons.prems(3) by simp
  have ws_some: "None \<notin> set ?ws"
    using Cons.prems(4) set_update_subset_insert [of ws ?w "Some (l + 3)"] by auto
  have sum: "sum_list (map worker_locked ?ws) = sum_list (map worker_locked ws) + 3"
    using worker_locked_update [OF w l] .
  have lk: "lock c t (handleID c) 3 (a # writes') = Some ((3, None), c, writes')"
    using lock_three_accepted [OF assms refl acc] .
  from Cons.prems(2) sched have "length ids \<le> length sched'" by simp
  from Cons.IH [OF rest this ws_ne ws_some] obtain ws' where
    run: "run_tasks c
            (map (\<lambda>t. \<lparr>task_tableID = t, task_handleID = handleID c,
                        task_limit = LockPerRegion (config c)\<rparr>) ids)
            sched' writes' ?ws err
          = Some (ws', err, c, drop (length ids) writes')"
    and total: "sum_list (map worker_locked ws') = sum_list (map worker_locked ?ws) + 3 * length ids"
    by blast
  have nth: "[0..<length ws] ! ?w = ?w" using w by simp
  have "run_tasks c
          (map (\<lambda>t. \<lparr>task_tableID = t, task_handleID = handleID c,
                      task_limit = LockPerRegion (config c)\<rparr>) (t # ids))
          sched writes ws err
        = Some (ws', err, c, drop (length (t # ids)) writes)"
    using run lk l Cons.prems(3) nth
    by (simp add: writes sched live_all_ex [OF Cons.prems(4)] assms(2) Let_def)
  moreover have "sum_list (map worker_locked ws')
                   = sum_list (map worker_locked ws) + 3 * length (t # ids)"
    using total sum by simp
  ultimately show ?case by blast
qed

text \<open>
  Claim C9. With 5 partitions, 3 locks per partition and 2 workers, when the ticker fires for
  every partition (no cancellation) and the store accepts every write, \<^verbatim>\<open>generateLocks\<close>
  returns the locked count 15 and no error, whichever worker takes which task.
\<close>

theorem generateLocks_reports_fifteen:
  assumes "length (tableIDs c) = 5" and "LockPerRegion (config c) = 3"
      and "Worker (config c) = 2" and "mockLockTs c = 0"
      and "CtxDone \<notin> set (ge_select env)" and "5 \<le> length (ge_select env)"
      and "5 \<le> length (ge_sched env)"
      and "list_all2 (accepted_write c) (take 5 (ge_writes env)) (tableIDs c)"
  shows "generateLocks c env = Some ((15, None), c)"
proof -
  let ?mk = "\<lambda>t. \<lparr>task_tableID = t, task_handleID = handleID c,
                    task_limit = LockPerRegion (config c)\<rparr>"
  have d: "dispatch c (tableIDs c) (ge_select env) = Some (map ?mk (tableIDs c))"
    using dispatch_all_ticks [OF assms(5)] assms(1,6) by simp
  have two: "replicate (nat (Worker (config c))) (Some (0::nat)) = [Some 0, Some 0]"
    using assms(3) by (simp add: numeral_2_eq_2)
  have "\<exists>ws'. run_tasks c (map ?mk (tableIDs c)) (ge_sched env) (ge_writes env)
                 [Some 0, Some 0] None
               = Some (ws', None, c, drop (length (tableIDs c)) (ge_writes env))
             \<and> sum_list (map worker_locked ws')
                 = sum_list (map worker_locked [Some 0, Some 0]) + 3 * length (tableIDs c)"
    using assms(1,7,8) by (intro run_tasks_accepted [OF assms(4,2)]) simp_all
  then obtain ws' where
    "run_tasks c (map ?mk (tableIDs c)) (ge_sched env) (ge_writes env) [Some 0, Some 0] None
       = Some (ws', None, c, drop (length (tableIDs c)) (ge_writes env))"
    and "sum_list (map worker_locked ws') = 15"
    using assms(1) by auto
  with d two show ?thesis
    by (simp add: generateLocks_def Let_def)
qed

lemma accepted_write_ok: "accepted_write c write_ok t"
  by (simp add: accepted_write_def write_ok_def loc_all_def pd_ok_def ComposeTS_def list_all_iff)

theorem generateLocks_reports_fifteen_witness:
  "length (tableIDs c_five) = 5 \<and> LockPerRegion (config c_five) = 3
   \<and> Worker (config c_five) = 2 \<and> mockLockTs c_five = 0
   \<and> CtxDone \<notin> set (ge_select env_five) \<and> 5 \<le> length (ge_select env_five)
   \<and> 5 \<le> length (ge_sched env_five)
   \<and> list_all2 (accepted_write c_five) (take 5 (ge_writes env_five)) (tableIDs c_five)
   \<and> generateLocks c_five env_five = Some ((15, None), c_five)"
proof -
  have h1: "length (tableIDs c_five) = 5" "LockPerRegion (config c_five) = 3"
    "Worker (config c_five) = 2" "mockLockTs c_five = 0"
    by (simp_all add: c_five_def)
  have h2: "CtxDone \<notin> set (ge_select env_five)" "5 \<le> length (ge_select env_five)"
    "5 \<le> length (ge_sched env_five)"
    by (simp_all add: env_five_def)
  have h3: "list_all2 (accepted_write c_five) (take 5 (ge_writes env_five)) (tableIDs c_five)"
    by (simp add: env_five_def c_five_def accepted_write_ok)
  from generateLocks_reports_fifteen [OF h1 h2 h3] h1 h2 h3 show ?thesis by simp
qed

text \<open>
  Claim C6 at a concrete run of the dispatch loop. The ticker fires for the first table, the
  \<^verbatim>\<open>select\<close> for the second table takes the case of the done context, and for the third
  table the ticker case is taken again: the task of the third table is sent to the channel
  after the cancellation has been observed, and its lock is written.
\<close>

theorem dispatch_enqueues_after_done:
  "dispatch c_three (tableIDs c_three) [TickerC, CtxDone, TickerC]
     = Some [\<lparr>task_tableID = 1, task_handleID = 1, task_limit = 1\<rparr>,
             \<lparr>task_tableID = 3, task_handleID = 1, task_limit = 1\<rparr>]
   \<and> generateLocks c_three
        \<lparr>ge_select = [TickerC, CtxDone, TickerC], ge_sched = [0, 0],
         ge_writes = [write_ok, write_ok]\<rparr>
     = Some ((2, None), c_three\<lparr>mockLockTs := 7\<rparr>)"
  by (simp add: c_three_def generateLocks_def lock_def txnSize_def lockBatch_def
        lockBatch_attempt_def getLockTs_def Let_def write_ok_def loc_all_def maxBatchSize_def)

section \<open>Consistency checker: classification and cursor\<close>

lemma classify_filter:
  "classify s infos safeLocks unsafeLocks
     = (safeLocks @ filter (\<lambda>l. TxnID l < s) (map NewLock infos),
        unsafeLocks @ filter (\<lambda>l. \<not> TxnID l < s) (map NewLock infos))"
  by (induction infos arbitrary: safeLocks unsafeLocks) (simp_all add: Let_def)

lemma CheckData_iter_page:
  assumes "sa_locate a = Inr loc" and "sa_send a = Inr resp" and "RegionError resp = Inr None"
      and "Resp resp = Some page" and "sl_Error page = None"
  shows "CheckData_iter c k u a
           = ((case sa_resolve a of
                 Inl e \<Rightarrow> ScanReturn (Some e)
               | Inr ok \<Rightarrow>
                   if \<not> ok
                   then (case sa_backoff a of Some e \<Rightarrow> ScanReturn (Some e) | None \<Rightarrow> ScanNext k)
                   else if next_cursor loc (sl_Locks page) = [] then ScanBreak
                   else ScanNext (next_cursor loc (sl_Locks page))),
              u @ filter (\<lambda>l. \<not> TxnID l < safeLockTs c) (map NewLock (sl_Locks page)),
              [SentScanLock loc \<lparr>Limit = 10, MaxVersion = safePoint c, scan_StartKey = k\<rparr>,
               BatchResolved (filter (\<lambda>l. TxnID l < safeLockTs c) (map NewLock (sl_Locks page)))
                 loc])"
  using assms
  by (simp add: CheckData_iter_def classify_filter Let_def split: sum.splits option.splits)

lemma CheckData_iter_other:
  assumes "\<not> (\<exists>loc resp page. sa_locate a = Inr loc \<and> sa_send a = Inr resp
              \<and> RegionError resp = Inr None \<and> Resp resp = Some page \<and> sl_Error page = None)"
  shows "\<exists>step ev. CheckData_iter c k u a = (step, u, ev) \<and> step \<noteq> ScanBreak
           \<and> (\<forall>e \<in> set ev. \<exists>loc. e = SentScanLock loc
                  \<lparr>Limit = 10, MaxVersion = safePoint c, scan_StartKey = k\<rparr>)"
  using assms
  by (auto simp: CheckData_iter_def Let_def split: sum.splits option.splits)

lemma CheckData_iter_inv:
  assumes "CheckData_iter c k u a = (step, u1, ev1)"
  shows "(\<forall>l \<in> set u1. l \<in> set u \<or> safeLockTs c \<le> TxnID l)
         \<and> (\<forall>ls loc. BatchResolved ls loc \<in> set ev1 \<longrightarrow> (\<forall>l \<in> set ls. TxnID l < safeLockTs c))
         \<and> (\<forall>loc req. SentScanLock loc req \<in> set ev1
               \<longrightarrow> Limit req = 10 \<and> MaxVersion req = safePoint c)"
proof (cases "\<exists>loc resp page. sa_locate a = Inr loc \<and> sa_send a = Inr resp
              \<and> RegionError resp = Inr None \<and> Resp resp = Some page \<and> sl_Error page = None")
  case True
  then obtain loc resp page where "sa_locate a = Inr loc" "sa_send a = Inr resp"
    "RegionError resp = Inr None" "Resp resp = Some page" "sl_Error page = None"
    by blast
  from CheckData_iter_page [OF this, of c k u] assms show ?thesis
    by (auto simp: not_less)
next
  case False
  from CheckData_iter_other [OF this, of c k u] assms show ?thesis
    by auto
qed

lemma CheckData_loop_inv:
  assumes "CheckData_loop c k u as = Some (u', err, ev)"
      and "\<forall>l \<in> set u. safeLockTs c \<le> TxnID l"
  shows "(\<forall>l \<in> set u'. safeLockTs c \<le> TxnID l)
         \<and> (\<forall>ls loc. BatchResolved ls loc \<in> set ev \<longrightarrow> (\<forall>l \<in> set ls. TxnID l < safeLockTs c))
         \<and> (\<forall>loc req. SentScanLock loc req \<in> set ev
               \<longrightarrow> Limit req = 10 \<and> MaxVersion req = safePoint c)"
  using assms
proof (induction as arbitrary: k u ev)
  case Nil
  then show ?case by simp
next
  case (Cons a as)
  obtain step u1 ev1 where it: "CheckData_iter c k u a = (step, u1, ev1)"
    by (cases "CheckData_iter c k u a") auto
  note inv = CheckData_iter_inv [OF it]
  from inv Cons.prems(2) have u1: "\<forall>l \<in> set u1. safeLockTs c \<le> TxnID l" by blast
  show ?case
  proof (cases step)
    case (ScanReturn e)
    with it Cons.prems(1) have "u' = u1" "ev = ev1" by auto
    with inv u1 show ?thesis by blast
  next
    case ScanBreak
    with it Cons.prems(1) have "u' = u1" "ev = ev1" by auto
    with inv u1 show ?thesis by blast
  next
    case (ScanNext k')
    with it Cons.prems(1) obtain ev2 where
      rec: "CheckData_loop c k' u1 as = Some (u', err, ev2)" and ev: "ev = ev1 @ ev2"
      by auto
    from Cons.IH [OF rec u1] inv ev show ?thesis by auto
  qed
qed

text \<open>
  Claim C10. Every scan-lock request of \<^verbatim>\<open>CheckData\<close> asks for at most 10 locks, while the
  test for a short page compares the number of locks returned with the constant 100. So
  after every resolved page with at most 10 locks the cursor is the end key of the region,
  and the cursor is taken from the last lock of a page only when the response holds 100 or
  more locks.
\<close>

theorem CheckData_limit_10_against_100:
  "(CheckData c script = Some (unsafeLocks, err, ev) \<and> SentScanLock loc req \<in> set ev
      \<longrightarrow> Limit req = 10)
   \<and> scanLockLimit = 100
   \<and> (sa_locate a = Inr loc' \<and> sa_send a = Inr resp \<and> RegionError resp = Inr None
      \<and> Resp resp = Some page \<and> sl_Error page = None \<and> sa_resolve a = Inr True
      \<and> length (sl_Locks page) \<le> 10
     \<longrightarrow> fst (CheckData_iter c k u a)
           = (if loc_EndKey loc' = [] then ScanBreak else ScanNext (loc_EndKey loc')))
   \<and> (next_cursor loc' locksInfo \<noteq> loc_EndKey loc' \<longrightarrow> 100 \<le> length locksInfo)"
proof (intro conjI impI)
  assume "CheckData c script = Some (unsafeLocks, err, ev) \<and> SentScanLock loc req \<in> set ev"
  then show "Limit req = 10"
    using CheckData_loop_inv [of c "[]" "[]" script unsafeLocks err ev]
    by (auto simp: CheckData_def)
next
  show "scanLockLimit = 100" by (simp add: scanLockLimit_def)
next
  assume h: "sa_locate a = Inr loc' \<and> sa_send a = Inr resp \<and> RegionError resp = Inr None
      \<and> Resp resp = Some page \<and> sl_Error page = None \<and> sa_resolve a = Inr True
      \<and> length (sl_Locks page) \<le> 10"
  then have "next_cursor loc' (sl_Locks page) = loc_EndKey loc'"
    by (simp add: next_cursor_def scanLockLimit_def)
  with h show "fst (CheckData_iter c k u a)
           = (if loc_EndKey loc' = [] then ScanBreak else ScanNext (loc_EndKey loc'))"
    using CheckData_iter_page [of a loc' resp page c k u] by simp
next
  assume "next_cursor loc' locksInfo \<noteq> loc_EndKey loc'"
  then show "100 \<le> length locksInfo"
    by (simp add: next_cursor_def scanLockLimit_def split: if_splits)
qed


lemma CheckData_iter_scan_page:
  "CheckData_iter c k u (scan_page loc locks)
     = (if next_cursor loc locks = [] then ScanBreak else ScanNext (next_cursor loc locks),
        u @ filter (\<lambda>l. \<not> TxnID l < safeLockTs c) (map NewLock locks),
        [SentScanLock loc \<lparr>Limit = 10, MaxVersion = safePoint c, scan_StartKey = k\<rparr>,
         BatchResolved (filter (\<lambda>l. TxnID l < safeLockTs c) (map NewLock locks)) loc])"
  using CheckData_iter_page [of "scan_page loc locks" loc
          "\<lparr>RegionError = Inr None, Resp = Some \<lparr>sl_Error = None, sl_Locks = locks\<rparr>\<rparr>"
          "\<lparr>sl_Error = None, sl_Locks = locks\<rparr>" c k u]
  by (simp add: scan_page_def)



theorem CheckData_limit_10_against_100_witness:
  "CheckData c_scan [scan_page loc_all [safe_lock, unsafe_lock]]
     = Some ([NewLock unsafe_lock], None,
         [SentScanLock loc_all \<lparr>Limit = 10, MaxVersion = 20, scan_StartKey = []\<rparr>,
          BatchResolved [NewLock safe_lock] loc_all])
   \<and> Limit \<lparr>Limit = 10, MaxVersion = 20, scan_StartKey = []\<rparr> = 10
   \<and> length [safe_lock, unsafe_lock] \<le> 10
   \<and> fst (CheckData_iter c_scan [] [] (scan_page loc_first [safe_lock, unsafe_lock]))
       = ScanNext [0x75]
   \<and> next_cursor loc_first (replicate 100 safe_lock) \<noteq> loc_EndKey loc_first
   \<and> 100 \<le> length (replicate 100 safe_lock)"
proof -
  note inst = CheckData_limit_10_against_100
    [where c = c_scan and script = "[scan_page loc_all [safe_lock, unsafe_lock]]"
       and loc = loc_all and req = "\<lparr>Limit = 10, MaxVersion = 20, scan_StartKey = []\<rparr>"
       and a = "scan_page loc_first [safe_lock, unsafe_lock]" and loc' = loc_first
       and resp = "\<lparr>RegionError = Inr None,
                     Resp = Some \<lparr>sl_Error = None, sl_Locks = [safe_lock, unsafe_lock]\<rparr>\<rparr>"
       and page = "\<lparr>sl_Error = None, sl_Locks = [safe_lock, unsafe_lock]\<rparr>"
       and k = "[]" and u = "[]" and locksInfo = "replicate 100 safe_lock"]
  have run: "CheckData c_scan [scan_page loc_all [safe_lock, unsafe_lock]]
     = Some ([NewLock unsafe_lock], None,
         [SentScanLock loc_all \<lparr>Limit = 10, MaxVersion = 20, scan_StartKey = []\<rparr>,
          BatchResolved [NewLock safe_lock] loc_all])"
    by (simp add: CheckData_def CheckData_iter_scan_page next_cursor_def scanLockLimit_def
          loc_all_def c_scan_def NewLock_def safe_lock_def unsafe_lock_def)
  with inst have l: "Limit \<lparr>Limit = 10, MaxVersion = 20, scan_StartKey = []\<rparr> = 10"
    by simp
  from inst have s: "fst (CheckData_iter c_scan [] [] (scan_page loc_first [safe_lock, unsafe_lock]))
       = ScanNext [0x75]"
    by (simp add: scan_page_def loc_first_def)
  have ne: "next_cursor loc_first (replicate 100 safe_lock) \<noteq> loc_EndKey loc_first"
    by (simp add: next_cursor_def scanLockLimit_def loc_first_def safe_lock_def)
  with inst have "100 \<le> length (replicate 100 safe_lock)" by blast
  with run l s ne show ?thesis by simp
qed

section \<open>Round controller\<close>

lemma getLockTs_config:
  "getLockTs c pds = Some (r, c') \<Longrightarrow> config c' = config c"
  by (auto simp: getLockTs_def Let_def split: if_splits)

lemma lockBatch_attempt_config:
  "lockBatch_attempt c keys a = Some (step, c', sent) \<Longrightarrow> config c' = config c"
  by (auto simp: lockBatch_attempt_def Let_def dest: getLockTs_config
           split: sum.splits option.splits prod.splits if_splits)

lemma lockBatch_loop_config:
  "lockBatch_loop c keys as = Some (r, c', rest, sent) \<Longrightarrow> config c' = config c"
proof (induction as arbitrary: c sent)
  case Nil
  then show ?case by simp
next
  case (Cons a as)
  from Cons.prems obtain step c1 sent1
    where att: "lockBatch_attempt c keys a = Some (step, c1, sent1)"
    by (auto split: option.splits)
  then have c1: "config c1 = config c" by (rule lockBatch_attempt_config)
  show ?case
  proof (cases step)
    case (Return x)
    with att Cons.prems c1 show ?thesis by auto
  next
    case Continue
    with att Cons.prems obtain sent2
      where "lockBatch_loop c1 keys as = Some (r, c', rest, sent2)"
      by auto
    from Cons.IH [OF this] c1 show ?thesis by simp
  qed
qed

lemma lockBatch_config:
  "lockBatch c keys as = Some (r, c', rest, sent) \<Longrightarrow> config c' = config c"
  by (auto simp: lockBatch_def dest: lockBatch_loop_config split: if_splits)

lemma lock_loop_config:
  "lock_loop c t h limit ixs keys locked as = Some (r, c', rest) \<Longrightarrow> config c' = config c"
proof (induction ixs arbitrary: c keys locked as)
  case Nil
  then show ?case by simp
next
  case (Cons i ixs)
  let ?keys = "keys @ [EncodeRowKeyWithHandle t (h + word_of_int i)]"
  show ?case
  proof (cases "length ?keys \<ge> txnSize \<or> i = limit - 1")
    case False
    with Cons.prems have "lock_loop c t h limit ixs ?keys locked as = Some (r, c', rest)"
      by (simp add: Let_def)
    from Cons.IH [OF this] show ?thesis .
  next
    case True
    with Cons.prems obtain cnt e c1 as1 sent
      where lb: "lockBatch c ?keys as = Some ((cnt, e), c1, as1, sent)"
      by (auto simp: Let_def split: option.splits)
    then have c1: "config c1 = config c" by (rule lockBatch_config)
    show ?thesis
    proof (cases e)
      case (Some err)
      with True lb Cons.prems c1 show ?thesis by (auto simp: Let_def)
    next
      case None
      with True lb Cons.prems
      have "lock_loop c1 t h limit ixs [] (locked + cnt) as1 = Some (r, c', rest)"
        by (auto simp: Let_def)
      from Cons.IH [OF this] c1 show ?thesis by simp
    qed
  qed
qed

lemma lock_config:
  "lock c t h limit as = Some (r, c', rest) \<Longrightarrow> config c' = config c"
  unfolding lock_def by (rule lock_loop_config)

lemma run_tasks_config:
  "run_tasks c tasks sched as ws err = Some (ws', err', c', rest) \<Longrightarrow> config c' = config c"
proof (induction tasks arbitrary: c sched as ws err)
  case Nil
  then show ?case by simp
next
  case (Cons t tasks)
  let ?live = "filter (\<lambda>i. ws ! i \<noteq> None) [0..<length ws]"
  show ?case
  proof (cases "?live = []")
    case True
    with Cons.prems show ?thesis by (simp add: Let_def)
  next
    case False
    with Cons.prems obtain s sched' where sched: "sched = s # sched'"
      by (cases sched) (auto simp: Let_def)
    with False Cons.prems obtain cnt e c1 as1
      where lk: "lock c (task_tableID t) (task_handleID t) (task_limit t) as
                   = Some ((cnt, e), c1, as1)"
      by (auto simp: Let_def split: option.splits)
    then have c1: "config c1 = config c" by (rule lock_config)
    from False sched lk Cons.prems obtain ws1 err1
      where "run_tasks c1 tasks sched' as1 ws1 err1 = Some (ws', err', c', rest)"
      by (cases e) (auto simp: Let_def)
    from Cons.IH [OF this] c1 show ?thesis by simp
  qed
qed

lemma generateLocks_config:
  "generateLocks c env = Some (r, c') \<Longrightarrow> config c' = config c"
  by (auto simp: generateLocks_def Let_def dest: run_tasks_config split: option.splits)

lemma round_to_gc_config:
  "round_to_gc c r = Some (Proceed (c3, used)) \<Longrightarrow> config c3 = config c"
  by (auto simp: round_to_gc_def Let_def asyncGenerateLocksDuringGC_def dest: generateLocks_config
           split: if_splits option.splits prod.splits gc_outcome.splits)

lemma round_check_config:
  "round_check c r = Some (Proceed c5) \<Longrightarrow> config c5 = config c"
  by (auto simp: round_check_def reset_def dest: generateLocks_config
           split: if_splits option.splits prod.splits)

lemma quiet_rounds_Cons:
  "quiet_rounds c (r # rs) = Some c' \<Longrightarrow>
   \<exists>c3 c5. round_to_gc c r = Some (Proceed (c3, False)) \<and> round_check c3 r = Some (Proceed c5)
           \<and> quiet_rounds c5 rs = Some c'"
  by (auto split: option.splits phase.splits prod.splits bool.splits)

lemma quiet_rounds_take:
  "quiet_rounds c rs = Some c' \<Longrightarrow> \<exists>c''. quiet_rounds c (take n rs) = Some c''"
proof (induction rs arbitrary: c n)
  case Nil
  then show ?case by simp
next
  case (Cons r rs)
  from quiet_rounds_Cons [OF Cons.prems] obtain c3 c5 where
    st: "round_to_gc c r = Some (Proceed (c3, False))" "round_check c3 r = Some (Proceed c5)"
    and rest: "quiet_rounds c5 rs = Some c'"
    by blast
  show ?case
  proof (cases n)
    case 0
    then show ?thesis by simp
  next
    case (Suc m)
    from Cons.IH [OF rest, of m] st Suc show ?thesis by simp
  qed
qed

lemma Start_loop_quiet:
  "quiet_rounds c rs = Some c' \<Longrightarrow> L + int (length rs) - G \<le> 51 \<Longrightarrow>
   Start_loop c L G (rs @ later) = Start_loop c' (L + int (length rs)) G later
   \<and> config c' = config c"
proof (induction rs arbitrary: c L)
  case Nil
  then show ?case by simp
next
  case (Cons r rs)
  from quiet_rounds_Cons [OF Cons.prems(1)] obtain c3 c5 where
    st: "round_to_gc c r = Some (Proceed (c3, False))" "round_check c3 r = Some (Proceed c5)"
    and rest: "quiet_rounds c5 rs = Some c'"
    by blast
  have cfg: "config c5 = config c"
    using round_to_gc_config [OF st(1)] round_check_config [OF st(2)] by simp
  from Cons.prems(2) have small: "\<not> L - G > 50" and bound: "(L + 1) + int (length rs) - G \<le> 51"
    by simp_all
  from Cons.IH [OF rest bound]
  have "Start_loop c5 (L + 1) G (rs @ later) = Start_loop c' (L + 1 + int (length rs)) G later"
    and "config c' = config c5"
    by simp_all
  with st small cfg show ?case
    by (simp add: Let_def add.assoc)
qed

text \<open>
  Claim C5. With green GC enabled, let 50 rounds run to their end with GC reporting
  \<^verbatim>\<open>physicalUsed = false\<close>, and let GC report the same in the round after them. Then \<^verbatim>\<open>Start\<close>
  returns the green-GC error in round 51 (\<^verbatim>\<open>loopNum\<close> 50) and has not returned after any
  smaller number of these rounds; the same holds for 51 such rounds that follow a round
  \<open>L - 1\<close> in which the physical path was used.
\<close>

theorem Start_green_gc_fails_in_round_51:
  assumes "EnableGreenGC (config c)" and "length rs = 50"
      and "quiet_rounds c rs = Some c50"
      and "round_to_gc c50 r = Some (Proceed (c3, False))"
  shows "Start c (rs @ r # later)
           = Some (Some (ErrMsg ''green gc failed to run for over 50 times''), 50)
         \<and> (\<forall>n \<le> 50. Start c (take n (rs @ r # later)) = None)
         \<and> Start_loop c L (L - 1) (rs @ r # later)
           = Some (Some (ErrMsg ''green gc failed to run for over 50 times''), L + 50)
         \<and> (\<forall>n \<le> 50. Start_loop c L (L - 1) (take n (rs @ r # later)) = None)"
proof -
  have fails: "Start_loop c L (L - 1) (rs @ r # later)
           = Some (Some (ErrMsg ''green gc failed to run for over 50 times''), L + 50)" for L
  proof -
    from Start_loop_quiet [OF assms(3), of L "L - 1" "r # later"] assms(2)
    have run: "Start_loop c L (L - 1) (rs @ r # later) = Start_loop c50 (L + 50) (L - 1) (r # later)"
      and cfg: "config c50 = config c"
      by simp_all
    have "config c3 = config c" using round_to_gc_config [OF assms(4)] cfg by simp
    with assms(1,4) run show ?thesis by simp
  qed
  have running: "Start_loop c L (L - 1) (take n (rs @ r # later)) = None" if n: "n \<le> 50" for L n
  proof -
    from quiet_rounds_take [OF assms(3), of n] obtain c'' where
      q: "quiet_rounds c (take n rs) = Some c''"
      by blast
    have "length (take n rs) = n" using n assms(2) by simp
    with Start_loop_quiet [OF q, of L "L - 1" "[]"] n
    have "Start_loop c L (L - 1) (take n rs) = None" by simp
    moreover have "take n (rs @ r # later) = take n rs" using n assms(2) by simp
    ultimately show ?thesis by simp
  qed
  from fails [of 0] running [of _ 0] fails [of L] running [of _ L]
  show ?thesis by (simp add: Start_def)
qed

text \<open>
  Claim C1. Of a page of locks that the scan returns, \<^verbatim>\<open>CheckData\<close> appends the locks whose
  \<^verbatim>\<open>TxnID\<close> is at least \<^verbatim>\<open>safeLockTs\<close> to the unsafe locks and hands exactly the locks below
  \<^verbatim>\<open>safeLockTs\<close> to \<^verbatim>\<open>BatchResolveLocks\<close>; over the whole scan every unsafe lock is at or above
  \<^verbatim>\<open>safeLockTs\<close> and no such lock is ever handed to \<^verbatim>\<open>BatchResolveLocks\<close>; and when a round
  reaches \<^verbatim>\<open>CheckData\<close> and the unsafe locks it returns are not empty, \<^verbatim>\<open>Start\<close> returns the
  error of the failed check in that round.
\<close>

theorem CheckData_unsafe_locks_fail_the_run:
  "(sa_locate a = Inr loc \<and> sa_send a = Inr resp \<and> RegionError resp = Inr None
      \<and> Resp resp = Some page \<and> sl_Error page = None
     \<longrightarrow> (\<exists>step. CheckData_iter c k u a
            = (step,
               u @ filter (\<lambda>l. safeLockTs c \<le> TxnID l) (map NewLock (sl_Locks page)),
               [SentScanLock loc \<lparr>Limit = 10, MaxVersion = safePoint c, scan_StartKey = k\<rparr>,
                BatchResolved
                  (filter (\<lambda>l. TxnID l < safeLockTs c) (map NewLock (sl_Locks page))) loc])))
   \<and> (CheckData c script = Some (unsafeLocks, err, ev)
     \<longrightarrow> (\<forall>l \<in> set unsafeLocks. safeLockTs c \<le> TxnID l)
         \<and> (\<forall>ls loc'. BatchResolved ls loc' \<in> set ev
               \<longrightarrow> (\<forall>l \<in> set ls. TxnID l < safeLockTs c)))
   \<and> (round_to_gc c0 r = Some (Proceed (c3, greenGCUsed))
      \<and> \<not> (EnableGreenGC (config c3)
            \<and> loopNum - (if greenGCUsed then loopNum else lastGreenGC) > 50)
      \<and> generateLocks c3 (re_async r) = Some (res, c4)
      \<and> CheckData c4 (re_scan r) = Some (unsafeLocks', err', ev') \<and> unsafeLocks' \<noteq> []
     \<longrightarrow> Start_loop c0 loopNum lastGreenGC (r # rs)
           = Some (Some (ErrMsg ''green GC check data failed''), loopNum))"
proof -
  have page: "sa_locate a = Inr loc \<and> sa_send a = Inr resp \<and> RegionError resp = Inr None
      \<and> Resp resp = Some page \<and> sl_Error page = None
     \<longrightarrow> (\<exists>step. CheckData_iter c k u a
            = (step,
               u @ filter (\<lambda>l. safeLockTs c \<le> TxnID l) (map NewLock (sl_Locks page)),
               [SentScanLock loc \<lparr>Limit = 10, MaxVersion = safePoint c, scan_StartKey = k\<rparr>,
                BatchResolved
                  (filter (\<lambda>l. TxnID l < safeLockTs c) (map NewLock (sl_Locks page))) loc]))"
    using CheckData_iter_page [of a loc resp page c k u] by (simp add: not_less)
  have scan: "CheckData c script = Some (unsafeLocks, err, ev)
     \<longrightarrow> (\<forall>l \<in> set unsafeLocks. safeLockTs c \<le> TxnID l)
         \<and> (\<forall>ls loc'. BatchResolved ls loc' \<in> set ev
               \<longrightarrow> (\<forall>l \<in> set ls. TxnID l < safeLockTs c))"
    using CheckData_loop_inv [of c "[]" "[]" script unsafeLocks err ev]
    by (auto simp: CheckData_def)
  have run: "round_to_gc c0 r = Some (Proceed (c3, greenGCUsed))
      \<and> \<not> (EnableGreenGC (config c3)
            \<and> loopNum - (if greenGCUsed then loopNum else lastGreenGC) > 50)
      \<and> generateLocks c3 (re_async r) = Some (res, c4)
      \<and> CheckData c4 (re_scan r) = Some (unsafeLocks', err', ev') \<and> unsafeLocks' \<noteq> []
     \<longrightarrow> Start_loop c0 loopNum lastGreenGC (r # rs)
           = Some (Some (ErrMsg ''green GC check data failed''), loopNum)"
  proof
    assume h: "round_to_gc c0 r = Some (Proceed (c3, greenGCUsed))
      \<and> \<not> (EnableGreenGC (config c3)
            \<and> loopNum - (if greenGCUsed then loopNum else lastGreenGC) > 50)
      \<and> generateLocks c3 (re_async r) = Some (res, c4)
      \<and> CheckData c4 (re_scan r) = Some (unsafeLocks', err', ev') \<and> unsafeLocks' \<noteq> []"
    then have "round_check c3 r = Some (Exit (Some (ErrMsg ''green GC check data failed'')))"
      by (simp add: round_check_def)
    with h show "Start_loop c0 loopNum lastGreenGC (r # rs)
           = Some (Some (ErrMsg ''green GC check data failed''), loopNum)"
      by (auto simp: Let_def)
  qed
  show ?thesis by (rule conjI [OF page conjI [OF scan run]])
qed

lemma getTs_pd_ok: "getTs [pd_ok] = Some (262145, None)"
  by (simp add: pd_ok_def ComposeTS_def)

lemma getTs_pd_later: "getTs [pd_later] = Some (524289, None)"
  by (simp add: pd_later_def ComposeTS_def)

lemma getTs_pd_down: "getTs [pd_down] = Some (0, None)"
  by (simp add: pd_down_def)

lemma generateLocks_main_one: "generateLocks c_demo env_one = Some ((1, None), c_demo)"
  by (simp add: c_demo_def env_one_def generateLocks_def lock_def txnSize_def lockBatch_def
        lockBatch_attempt_def getLockTs_def Let_def write_ok_def loc_all_def maxBatchSize_def
        pd_ok_def ComposeTS_def)

lemma generateLocks_race_one:
  "generateLocks c_gc env_one = Some ((1, None), c_gc\<lparr>mockLockTs := 262144\<rparr>)"
  by (simp add: c_gc_def c_demo_def env_one_def generateLocks_def lock_def txnSize_def
        lockBatch_def lockBatch_attempt_def getLockTs_def Let_def write_ok_def loc_all_def
        maxBatchSize_def)

lemma gc_loop_first_reply:
  "gc_loop 5 u e (Body b # rs) = Some (GCDone b)"
  "\<not> retriable err \<Longrightarrow> gc_loop 5 u e (HttpError err # rs) = Some (GCFailed err)"
  by (simp_all add: eval_nat_numeral)

lemma round_to_gc_quiet: "round_to_gc c_demo r_quiet = Some (Proceed (c_gc, False))"
  by (simp add: round_to_gc_def r_quiet_def getTs_pd_ok getTs_pd_later generateLocks_main_one
        gc_loop_first_reply Let_def asyncGenerateLocksDuringGC_def c_gc_def del: getTs.simps)
     (simp add: c_demo_def)

lemma CheckData_race_lock:
  "CheckData (c_gc\<lparr>mockLockTs := 262144\<rparr>) [scan_page loc_all [race_lock]]
     = Some ([], None,
         [SentScanLock loc_all \<lparr>Limit = 10, MaxVersion = 524289, scan_StartKey = []\<rparr>,
          BatchResolved [NewLock race_lock] loc_all])"
  by (simp add: CheckData_def CheckData_iter_scan_page next_cursor_def scanLockLimit_def
        loc_all_def c_gc_def NewLock_def race_lock_def)

lemma round_check_quiet: "round_check c_gc r_quiet = Some (Proceed c_demo)"
  by (simp add: round_check_def r_quiet_def generateLocks_race_one CheckData_race_lock)
     (simp add: reset_def c_gc_def c_demo_def)

lemma quiet_rounds_replicate: "quiet_rounds c_demo (replicate n r_quiet) = Some c_demo"
  by (induction n) (simp_all add: round_to_gc_quiet round_check_quiet)

theorem Start_green_gc_fails_in_round_51_witness:
  "EnableGreenGC (config c_demo) \<and> length (replicate 50 r_quiet) = 50
   \<and> quiet_rounds c_demo (replicate 50 r_quiet) = Some c_demo
   \<and> round_to_gc c_demo r_quiet = Some (Proceed (c_gc, False))
   \<and> Start c_demo (replicate 50 r_quiet @ r_quiet # [r_quiet])
       = Some (Some (ErrMsg ''green gc failed to run for over 50 times''), 50)
   \<and> Start c_demo (take 50 (replicate 50 r_quiet @ r_quiet # [r_quiet])) = None"
proof -
  have h1: "EnableGreenGC (config c_demo)" by (simp add: c_demo_def)
  have h2: "length (replicate 50 r_quiet) = 50" by simp
  note h3 = quiet_rounds_replicate [of 50]
  note h4 = round_to_gc_quiet
  from Start_green_gc_fails_in_round_51 [OF h1 h2 h3 h4, of "[r_quiet]"] h1 h3 h4
  show ?thesis by simp
qed

lemma round_to_gc_unsafe: "round_to_gc c_demo r_unsafe = Some (Proceed (c_gc, True))"
  by (simp add: round_to_gc_def r_unsafe_def getTs_pd_ok getTs_pd_later generateLocks_main_one
        gc_loop_first_reply Let_def asyncGenerateLocksDuringGC_def c_gc_def del: getTs.simps)
     (simp add: c_demo_def)

lemma CheckData_leaked_lock:
  "CheckData (c_gc\<lparr>mockLockTs := 262144\<rparr>) [scan_page loc_all [leaked_lock, race_lock]]
     = Some ([NewLock leaked_lock], None,
         [SentScanLock loc_all \<lparr>Limit = 10, MaxVersion = 524289, scan_StartKey = []\<rparr>,
          BatchResolved [NewLock race_lock] loc_all])"
  by (simp add: CheckData_def CheckData_iter_scan_page next_cursor_def scanLockLimit_def
        loc_all_def c_gc_def NewLock_def race_lock_def leaked_lock_def)

theorem CheckData_unsafe_locks_fail_the_run_witness:
  "CheckData_iter (c_gc\<lparr>mockLockTs := 262144\<rparr>) [] []
       (scan_page loc_all [leaked_lock, race_lock])
     = (ScanBreak, [NewLock leaked_lock],
        [SentScanLock loc_all \<lparr>Limit = 10, MaxVersion = 524289, scan_StartKey = []\<rparr>,
         BatchResolved [NewLock race_lock] loc_all])
   \<and> CheckData (c_gc\<lparr>mockLockTs := 262144\<rparr>) [scan_page loc_all [leaked_lock, race_lock]]
       = Some ([NewLock leaked_lock], None,
           [SentScanLock loc_all \<lparr>Limit = 10, MaxVersion = 524289, scan_StartKey = []\<rparr>,
            BatchResolved [NewLock race_lock] loc_all])
   \<and> safeLockTs (c_gc\<lparr>mockLockTs := 262144\<rparr>) \<le> TxnID (NewLock leaked_lock)
   \<and> TxnID (NewLock race_lock) < safeLockTs (c_gc\<lparr>mockLockTs := 262144\<rparr>)
   \<and> round_to_gc c_demo r_unsafe = Some (Proceed (c_gc, True))
   \<and> generateLocks c_gc (re_async r_unsafe) = Some ((1, None), c_gc\<lparr>mockLockTs := 262144\<rparr>)
   \<and> Start_loop c_demo 0 (- 1) [r_unsafe]
       = Some (Some (ErrMsg ''green GC check data failed''), 0)"
proof -
  let ?c = "c_gc\<lparr>mockLockTs := 262144\<rparr>"
  let ?page = "\<lparr>sl_Error = None, sl_Locks = [leaked_lock, race_lock]\<rparr>"
  let ?ev = "[SentScanLock loc_all \<lparr>Limit = 10, MaxVersion = 524289, scan_StartKey = []\<rparr>,
              BatchResolved [NewLock race_lock] loc_all]"
  note inst = CheckData_unsafe_locks_fail_the_run
    [where a = "scan_page loc_all [leaked_lock, race_lock]" and loc = loc_all
       and resp = "\<lparr>RegionError = Inr None, Resp = Some ?page\<rparr>" and page = ?page
       and c = ?c and k = "[]" and u = "[]"
       and script = "[scan_page loc_all [leaked_lock, race_lock]]"
       and unsafeLocks = "[NewLock leaked_lock]" and err = None and ev = ?ev
       and ?c0.0 = c_demo and r = r_unsafe and ?c3.0 = c_gc and greenGCUsed = True
       and loopNum = 0 and lastGreenGC = "- 1" and res = "(1, None)" and ?c4.0 = ?c
       and unsafeLocks' = "[NewLock leaked_lock]" and err' = None and ev' = ?ev and rs = "[]"]
  have scan: "CheckData ?c [scan_page loc_all [leaked_lock, race_lock]]
       = Some ([NewLock leaked_lock], None, ?ev)"
    by (rule CheckData_leaked_lock)
  have gen: "generateLocks c_gc (re_async r_unsafe) = Some ((1, None), ?c)"
    by (simp add: r_unsafe_def generateLocks_race_one)
  have scan': "CheckData ?c (re_scan r_unsafe) = Some ([NewLock leaked_lock], None, ?ev)"
    using scan by (simp add: r_unsafe_def)
  have it: "CheckData_iter ?c [] [] (scan_page loc_all [leaked_lock, race_lock])
     = (ScanBreak, [NewLock leaked_lock], ?ev)"
    by (simp add: CheckData_iter_scan_page next_cursor_def scanLockLimit_def
          loc_all_def c_gc_def NewLock_def race_lock_def leaked_lock_def)
  from inst scan have cls: "safeLockTs ?c \<le> TxnID (NewLock leaked_lock)
      \<and> TxnID (NewLock race_lock) < safeLockTs ?c"
    by auto
  from inst round_to_gc_unsafe gen scan'
  have "Start_loop c_demo 0 (- 1) [r_unsafe]
       = Some (Some (ErrMsg ''green GC check data failed''), 0)"
    by simp
  with it scan cls round_to_gc_unsafe gen show ?thesis by blast
qed

text \<open>
  Claim C4 at a concrete round. The first timestamp is fine; the timestamp source then gives
  up while the safe point is acquired, so \<^verbatim>\<open>getTs\<close> returns zero and no error. The test
  that follows looks at the first timestamp again, the round goes on to invoke GC at safe
  point zero, and \<^verbatim>\<open>Start\<close> returns the error of the GC request. When it is the first
  timestamp that comes back zero, \<^verbatim>\<open>Start\<close> returns no error.
\<close>

theorem Start_goes_on_after_zero_safe_point:
  "getTs (re_safePoint r_pd_down) = Some (0, None)
   \<and> Start c_demo [r_pd_down] = Some (Some (ErrMsg ''connection refused''), 0)
   \<and> round_to_gc c_demo (r_pd_down\<lparr>re_gc := [Body True]\<rparr>)
       = Some (Proceed (c_gc\<lparr>safePoint := 0\<rparr>, True))
   \<and> Start c_demo [r_pd_down\<lparr>re_ts := [pd_down]\<rparr>] = Some (None, 0)"
proof -
  have nr: "\<not> retriable (ErrMsg ''connection refused'')"
    by (simp add: retriable_def)
  have a: "getTs (re_safePoint r_pd_down) = Some (0, None)"
    by (simp add: r_pd_down_def getTs_pd_down del: getTs.simps)
  have b: "round_to_gc c_demo r_pd_down = Some (Exit (Some (ErrMsg ''connection refused'')))"
    by (simp add: round_to_gc_def r_pd_down_def getTs_pd_ok getTs_pd_down
          generateLocks_main_one gc_loop_first_reply nr Let_def del: getTs.simps)
  have c: "round_to_gc c_demo (r_pd_down\<lparr>re_gc := [Body True]\<rparr>)
       = Some (Proceed (c_gc\<lparr>safePoint := 0\<rparr>, True))"
    by (simp add: round_to_gc_def r_pd_down_def getTs_pd_ok getTs_pd_down
          generateLocks_main_one gc_loop_first_reply Let_def asyncGenerateLocksDuringGC_def c_gc_def
          del: getTs.simps)
       (simp add: c_demo_def)
  have d: "round_to_gc c_demo (r_pd_down\<lparr>re_ts := [pd_down]\<rparr>) = Some (Exit None)"
    by (simp add: round_to_gc_def r_pd_down_def getTs_pd_down del: getTs.simps)
  from a b c d show ?thesis by (simp add: Start_def)
qed

end
